theory Spec2Isabelle
  imports Complex_Main
begin

section \<open>JavaScript values used by \<open>request_list.js\<close>\<close>

text \<open>
  A JavaScript number is a double: not-a-number, an infinity, or a finite value, which is
  a rational. Rounding plays no role below (the only arithmetic is \<open>nextIndex++\<close> on
  array positions), so finite doubles are embedded in \<open>rat\<close>. Every comparison with
  \<open>NaN\<close> is false.
\<close>

datatype js_number = NaN | NegInf | Fin rat | PosInf

fun js_lt :: "js_number \<Rightarrow> js_number \<Rightarrow> bool" where
  "js_lt (Fin a) (Fin b) = (a < b)"
| "js_lt NegInf (Fin b) = True"
| "js_lt NegInf PosInf = True"
| "js_lt (Fin a) PosInf = True"
| "js_lt _ _ = False"

definition js_ge :: "js_number \<Rightarrow> js_number \<Rightarrow> bool" where
  "js_ge a b = (a \<noteq> NaN \<and> b \<noteq> NaN \<and> \<not> js_lt a b)"

fun js_incr :: "js_number \<Rightarrow> js_number" where
  "js_incr (Fin a) = Fin (a + 1)"
| "js_incr x = x"

definition js_num :: "nat \<Rightarrow> js_number" where
  "js_num n = Fin (of_nat n)"

text \<open>\<open>xs[x]\<close>: the element when \<open>x\<close> is an integer within range, \<open>undefined\<close>
  (here \<open>None\<close>) for every other number.\<close>

definition js_index :: "'a list \<Rightarrow> js_number \<Rightarrow> 'a option" where
  "js_index xs x =
     (case x of
        Fin a \<Rightarrow> (if 0 \<le> a \<and> a < of_nat (length xs) \<and> of_int \<lfloor>a\<rfloor> = a
                  then Some (xs ! nat \<lfloor>a\<rfloor>) else None)
      | _ \<Rightarrow> None)"

text \<open>What \<open>typeof v === 'number'\<close> distinguishes.\<close>

datatype js_value = NotNumber | Number js_number

subsection \<open>Objects used as dictionaries\<close>

text \<open>
  \<open>inProgress\<close> and \<open>reclaimed\<close> are objects whose own keys are unique keys and whose
  values are all \<open>true\<close> (also in a state object, which has the form \<open>getState()\<close>
  returns); such an object is modelled by the list of its own keys. Objects are values
  here: that \<open>initialize\<close> keeps \<open>state.inProgress\<close> itself as \<open>inProgress\<close> is not modelled.
  \<open>uniqueKeyToIndex\<close> is an association list from own keys to positions.
  All three are created by \<open>{}\<close> and so inherit the properties of \<open>Object.prototype\<close>:
  for one of those names, \<open>d[k]\<close> is a function or an object, never \<open>undefined\<close>,
  also when \<open>k\<close> is no own key of \<open>d\<close>.
\<close>

definition objectPrototypeKeys :: "string list" where
  "objectPrototypeKeys =
     [''constructor'', ''hasOwnProperty'', ''isPrototypeOf'', ''propertyIsEnumerable'',
      ''toLocaleString'', ''toString'', ''valueOf'', ''__proto__'',
      ''__defineGetter__'', ''__defineSetter__'', ''__lookupGetter__'', ''__lookupSetter__'']"

text \<open>\<open>d[k]\<close> is truthy.\<close>

definition dictTruthy :: "string list \<Rightarrow> string \<Rightarrow> bool" where
  "dictTruthy d k = (k \<in> set d \<or> k \<in> set objectPrototypeKeys)"

text \<open>\<open>d[k] = true\<close>. Assigning a primitive to \<open>__proto__\<close> runs the inherited setter,
  which ignores it.\<close>

definition dictSet :: "string \<Rightarrow> string list \<Rightarrow> string list" where
  "dictSet k d = (if k \<in> set d \<or> k = ''__proto__'' then d else d @ [k])"

text \<open>\<open>delete d[k]\<close>.\<close>

definition dictDelete :: "string \<Rightarrow> string list \<Rightarrow> string list" where
  "dictDelete k d = removeAll k d"

text \<open>\<open>m[k] === undefined\<close> for the position dictionary.\<close>

definition indexUndefined :: "(string \<times> nat) list \<Rightarrow> string \<Rightarrow> bool" where
  "indexUndefined m k = (map_of m k = None \<and> k \<notin> set objectPrototypeKeys)"

text \<open>
  Modelled from the spec: \<open>getFirstKey\<close>, imported from \<open>./utils\<close>, whose file is missing.
  It is a parameter of every operation that calls it, of type
  \<open>string list \<Rightarrow> string option\<close> (\<open>None\<close> for \<open>undefined\<close>). The spec has
  \<open>fetchNext\<close> pop an arbitrary member of a non-empty \<open>reclaimed\<close>, and \<open>isEmpty\<close> and
  \<open>isFinished\<close> test the sets for emptiness: the function yields no key for an object
  without own keys and some own key of the object otherwise. Which one is left open, so
  nothing below depends on the enumeration order of object keys.
\<close>

definition getFirstKeyContract :: "(string list \<Rightarrow> string option) \<Rightarrow> bool" where
  "getFirstKeyContract getFirstKey \<longleftrightarrow>
     getFirstKey [] = None \<and>
     (\<forall>d. d \<noteq> [] \<longrightarrow> (\<exists>k. k \<in> set d \<and> getFirstKey d = Some k))"

text \<open>An instance for evaluation: the first own key in enumeration order.\<close>

definition firstOwnKey :: "string list \<Rightarrow> string option" where
  "firstOwnKey d = (case d of [] \<Rightarrow> None | k # _ \<Rightarrow> Some k)"

text \<open>Truthiness of the result of \<open>getFirstKey\<close>: \<open>undefined\<close> and the empty string
  are falsy.\<close>

definition keyTruthy :: "string option \<Rightarrow> bool" where
  "keyTruthy r = (case r of None \<Rightarrow> False | Some k \<Rightarrow> k \<noteq> [])"

section \<open>Data model\<close>

text \<open>
  Modelled from the spec: the class \<open>Request\<close> of \<open>./request\<close>, whose file is missing. An
  item is a non-empty identity key and an opaque payload that the list never interprets;
  the list reads \<open>uniqueKey\<close> only. Sources are given as the requests the constructor
  \<open>new Request(opts)\<close> builds from them. The key is a string here; that it is not empty is
  checked by \<open>ensureUniqueKeyValid\<close>.
\<close>

record request =
  uniqueKey :: string
  payload :: string

text \<open>
  A source is a request specification, or a \<open>requestsFromUrl\<close> entry. For the latter
  the outcome of the download and of the regular-expression match is part of the input:
  \<open>None\<close> when the GET failed, otherwise the requests built from the matched URLs in
  document order (the empty list when nothing matched).
\<close>

datatype source = Plain request | RequestsFromUrl "request list option"

datatype error =
    InvalidUniqueKey
  | AlreadyLoading
  | InvalidNextIndex
  | TooFewRequests
  | OrderChanged
  | UnknownUniqueKey
  | NotInProgress
  | AlreadyReclaimed
  | NotInitialized
  | CannotFetchList
  | TypeError

datatype log_entry =
    ListFetched nat nat nat
  | ListEmpty
  | CannotFetch
  | InconsistentInProgress "string list"
  | CannotPersist

text \<open>The object returned by \<open>getState()\<close> and accepted as \<open>options.state\<close>.\<close>

record snapshot =
  state_nextIndex :: js_value
  state_nextUniqueKey :: "string option"
  state_inProgress :: "string list"

record options =
  opt_sources :: "source list"
  opt_persistStateKey :: "string option"
  opt_state :: "snapshot option"

text \<open>
  The fields of a \<open>RequestList\<close>. \<open>initialState\<close> is the value \<open>initialStatePromise\<close>
  resolves to. Two fields record effects on the outside: \<open>logged\<close> the calls of
  \<open>log\<close>, \<open>persistHandler\<close> whether the \<open>PERSIST_STATE\<close> handler is registered.
\<close>

record request_list =
  initialState :: "snapshot option"
  requests :: "request list"
  nextIndex :: js_number
  uniqueKeyToIndex :: "(string \<times> nat) list"
  inProgress :: "string list"
  reclaimed :: "string list"
  persistStateKey :: "string option"
  isStatePersisted :: bool
  isLoading :: bool
  isInitialized :: bool
  sources :: "source list"
  logged :: "log_entry list"
  persistHandler :: bool

text \<open>What \<open>fetchNextRequest\<close> resolves to.\<close>

datatype fetched = Request request | Null | Undefined

type_synonym 'a outcome = "(error + 'a) \<times> request_list"

section \<open>Construction and loading\<close>

text \<open>The constructor; \<open>getValue\<close> reads the key-value store.\<close>

definition newRequestList :: "(string \<Rightarrow> snapshot option) \<Rightarrow> options \<Rightarrow> request_list" where
  "newRequestList getValue opts =
     \<lparr> initialState =
         (case opt_persistStateKey opts of
            Some key \<Rightarrow> (if key \<noteq> [] \<and> opt_state opts = None then getValue key
                         else opt_state opts)
          | None \<Rightarrow> opt_state opts),
       requests = [],
       nextIndex = Fin 0,
       uniqueKeyToIndex = [],
       inProgress = [],
       reclaimed = [],
       persistStateKey = opt_persistStateKey opts,
       isStatePersisted = True,
       isLoading = False,
       isInitialized = False,
       sources = opt_sources opts,
       logged = [],
       persistHandler = False \<rparr>"

definition ensureUniqueKeyValid :: "string \<Rightarrow> error + unit" where
  "ensureUniqueKeyValid k = (if k = [] then Inl InvalidUniqueKey else Inr ())"

text \<open>\<open>_addRequest\<close>.\<close>

definition addRequest :: "request \<Rightarrow> request_list \<Rightarrow> unit outcome" where
  "addRequest r s =
     (case ensureUniqueKeyValid (uniqueKey r) of
        Inl e \<Rightarrow> (Inl e, s)
      | Inr _ \<Rightarrow>
          (if indexUndefined (uniqueKeyToIndex s) (uniqueKey r)
           then (Inr (), s\<lparr> uniqueKeyToIndex := uniqueKeyToIndex s @ [(uniqueKey r, length (requests s))],
                            requests := requests s @ [r] \<rparr>)
           else (Inr (), s)))"

text \<open>The \<open>forEach\<close> over the matched URLs.\<close>

fun addRequests :: "request list \<Rightarrow> request_list \<Rightarrow> unit outcome" where
  "addRequests [] s = (Inr (), s)"
| "addRequests (r # rs) s =
     (case addRequest r s of
        (Inl e, s') \<Rightarrow> (Inl e, s')
      | (Inr _, s') \<Rightarrow> addRequests rs s')"

text \<open>\<open>_addRequestsFromUrl\<close>. The \<open>catch\<close> follows the \<open>then\<close>, so an error thrown
  while adding is reported as a failed download too.\<close>

definition addRequestsFromUrl :: "request list option \<Rightarrow> request_list \<Rightarrow> unit outcome" where
  "addRequestsFromUrl fetchedList s =
     (case fetchedList of
        None \<Rightarrow> (Inl CannotFetchList, s\<lparr> logged := logged s @ [CannotFetch] \<rparr>)
      | Some [] \<Rightarrow> (Inr (), s\<lparr> logged := logged s @ [ListEmpty] \<rparr>)
      | Some urlsArr \<Rightarrow>
          (case addRequests urlsArr s of
             (Inl e, s') \<Rightarrow> (Inl CannotFetchList, s'\<lparr> logged := logged s' @ [CannotFetch] \<rparr>)
           | (Inr _, s') \<Rightarrow>
               (let fetchedCount = length urlsArr;
                    importedCount = length (requests s') - length (requests s)
                in (Inr (), s'\<lparr> logged := logged s' @
                      [ListFetched fetchedCount importedCount (fetchedCount - importedCount)] \<rparr>))))"

text \<open>\<open>Promise.mapSeries\<close> over the sources.\<close>

fun loadSources :: "source list \<Rightarrow> request_list \<Rightarrow> unit outcome" where
  "loadSources [] s = (Inr (), s)"
| "loadSources (src # rest) s =
     (case (case src of Plain r \<Rightarrow> addRequest r s
                      | RequestsFromUrl fetchedList \<Rightarrow> addRequestsFromUrl fetchedList s) of
        (Inl e, s') \<Rightarrow> (Inl e, s')
      | (Inr _, s') \<Rightarrow> loadSources rest s')"

section \<open>Restoring a state object\<close>

text \<open>The three checks of \<open>state.nextIndex\<close>. Reading \<open>uniqueKey\<close> of \<open>undefined\<close>
  throws a \<open>TypeError\<close>.\<close>

definition checkNextIndex :: "snapshot \<Rightarrow> request list \<Rightarrow> error + js_number" where
  "checkNextIndex st rs =
     (case state_nextIndex st of
        NotNumber \<Rightarrow> Inl InvalidNextIndex
      | Number nx \<Rightarrow>
          (if js_lt nx (Fin 0) then Inl InvalidNextIndex
           else if js_lt (js_num (length rs)) nx then Inl TooFewRequests
           else if js_lt nx (js_num (length rs))
           then (case js_index rs nx of
                   None \<Rightarrow> Inl TypeError
                 | Some r \<Rightarrow> (if Some (uniqueKey r) \<noteq> state_nextUniqueKey st
                              then Inl OrderChanged else Inr nx))
           else Inr nx))"

text \<open>The loop over \<open>_.keys(state.inProgress)\<close>, collecting \<open>deleteFromInProgress\<close>.
  An inherited property is no number either.\<close>

fun collectInvalid :: "(string \<times> nat) list \<Rightarrow> js_number \<Rightarrow> string list \<Rightarrow> string list \<Rightarrow> error + string list" where
  "collectInvalid m nx [] deleteFromInProgress = Inr deleteFromInProgress"
| "collectInvalid m nx (k # ks) deleteFromInProgress =
     (case map_of m k of
        None \<Rightarrow> Inl UnknownUniqueKey
      | Some index \<Rightarrow>
          collectInvalid m nx ks
            (if js_ge (js_num index) nx then deleteFromInProgress @ [k] else deleteFromInProgress))"

definition restoreState :: "snapshot \<Rightarrow> request_list \<Rightarrow> unit outcome" where
  "restoreState st s =
     (case checkNextIndex st (requests s) of
        Inl e \<Rightarrow> (Inl e, s)
      | Inr nx \<Rightarrow>
          (case collectInvalid (uniqueKeyToIndex s) nx (state_inProgress st) [] of
             Inl e \<Rightarrow> (Inl e, s)
           | Inr deleteFromInProgress \<Rightarrow>
               (let kept = fold dictDelete deleteFromInProgress (state_inProgress st)
                in (Inr (), s\<lparr> nextIndex := nx, inProgress := kept, reclaimed := kept,
                       logged := logged s @
                         (if deleteFromInProgress \<noteq> [] then [InconsistentInProgress deleteFromInProgress]
                          else []) \<rparr>))))"

definition initialize :: "request_list \<Rightarrow> unit outcome" where
  "initialize s =
     (if isLoading s then (Inl AlreadyLoading, s)
      else
        (case loadSources (sources s) (s\<lparr> isLoading := True \<rparr>) of
           (Inl e, s1) \<Rightarrow> (Inl e, s1)
         | (Inr _, s1) \<Rightarrow>
             (case (case initialState s1 of
                      None \<Rightarrow> (Inr (), s1)
                    | Some st \<Rightarrow> restoreState st s1) of
                (Inl e, s2) \<Rightarrow> (Inl e, s2)
              | (Inr _, s2) \<Rightarrow>
                  (Inr (), s2\<lparr> isInitialized := True,
                       persistHandler := (case persistStateKey s2 of None \<Rightarrow> False | Some key \<Rightarrow> key \<noteq> []) \<rparr>))))"

section \<open>Operations\<close>

definition ensureIsInitialized :: "request_list \<Rightarrow> error + unit" where
  "ensureIsInitialized s = (if isInitialized s then Inr () else Inl NotInitialized)"

definition ensureInProgressAndNotReclaimed :: "string \<Rightarrow> request_list \<Rightarrow> error + unit" where
  "ensureInProgressAndNotReclaimed k s =
     (if \<not> dictTruthy (inProgress s) k then Inl NotInProgress
      else if dictTruthy (reclaimed s) k then Inl AlreadyReclaimed
      else Inr ())"

definition getState :: "request_list \<Rightarrow> snapshot outcome" where
  "getState s =
     (case ensureIsInitialized s of
        Inl e \<Rightarrow> (Inl e, s)
      | Inr _ \<Rightarrow>
          (if js_lt (nextIndex s) (js_num (length (requests s)))
           then (case js_index (requests s) (nextIndex s) of
                   None \<Rightarrow> (Inl TypeError, s)
                 | Some r \<Rightarrow>
                     (Inr \<lparr> state_nextIndex = Number (nextIndex s),
                            state_nextUniqueKey = Some (uniqueKey r),
                            state_inProgress = inProgress s \<rparr>, s))
           else (Inr \<lparr> state_nextIndex = Number (nextIndex s),
                       state_nextUniqueKey = None,
                       state_inProgress = inProgress s \<rparr>, s)))"

definition isEmpty :: "(string list \<Rightarrow> string option) \<Rightarrow> request_list \<Rightarrow> bool outcome" where
  "isEmpty getFirstKey s =
     (case ensureIsInitialized s of
        Inl e \<Rightarrow> (Inl e, s)
      | Inr _ \<Rightarrow>
          (Inr (\<not> keyTruthy (getFirstKey (reclaimed s))
                \<and> js_ge (nextIndex s) (js_num (length (requests s)))), s))"

definition isFinished :: "(string list \<Rightarrow> string option) \<Rightarrow> request_list \<Rightarrow> bool outcome" where
  "isFinished getFirstKey s =
     (case ensureIsInitialized s of
        Inl e \<Rightarrow> (Inl e, s)
      | Inr _ \<Rightarrow>
          (Inr (\<not> keyTruthy (getFirstKey (inProgress s))
                \<and> js_ge (nextIndex s) (js_num (length (requests s)))), s))"

text \<open>In the first branch \<open>requests[index]\<close> is \<open>undefined\<close> when the key has no
  position; in the second, \<open>request.uniqueKey\<close> throws when \<open>requests[nextIndex]\<close> is
  \<open>undefined\<close>.\<close>

definition fetchNextRequest :: "(string list \<Rightarrow> string option) \<Rightarrow> request_list \<Rightarrow> fetched outcome" where
  "fetchNextRequest getFirstKey s =
     (case ensureIsInitialized s of
        Inl e \<Rightarrow> (Inl e, s)
      | Inr _ \<Rightarrow>
          (if keyTruthy (getFirstKey (reclaimed s))
           then (let k = the (getFirstKey (reclaimed s));
                     s' = s\<lparr> reclaimed := dictDelete k (reclaimed s) \<rparr>
                 in (case map_of (uniqueKeyToIndex s) k of
                       None \<Rightarrow> (Inr Undefined, s')
                     | Some index \<Rightarrow>
                         (case js_index (requests s) (js_num index) of
                            None \<Rightarrow> (Inr Undefined, s')
                          | Some r \<Rightarrow> (Inr (Request r), s'))))
           else if js_lt (nextIndex s) (js_num (length (requests s)))
           then (case js_index (requests s) (nextIndex s) of
                   None \<Rightarrow> (Inl TypeError, s)
                 | Some r \<Rightarrow>
                     (Inr (Request r),
                      s\<lparr> inProgress := dictSet (uniqueKey r) (inProgress s),
                         nextIndex := js_incr (nextIndex s),
                         isStatePersisted := False \<rparr>))
           else (Inr Null, s)))"

definition markRequestHandled :: "request \<Rightarrow> request_list \<Rightarrow> unit outcome" where
  "markRequestHandled r s =
     (case ensureUniqueKeyValid (uniqueKey r) of
        Inl e \<Rightarrow> (Inl e, s)
      | Inr _ \<Rightarrow>
          (case ensureInProgressAndNotReclaimed (uniqueKey r) s of
             Inl e \<Rightarrow> (Inl e, s)
           | Inr _ \<Rightarrow>
               (case ensureIsInitialized s of
                  Inl e \<Rightarrow> (Inl e, s)
                | Inr _ \<Rightarrow>
                    (Inr (), s\<lparr> inProgress := dictDelete (uniqueKey r) (inProgress s),
                                isStatePersisted := False \<rparr>))))"

definition reclaimRequest :: "request \<Rightarrow> request_list \<Rightarrow> unit outcome" where
  "reclaimRequest r s =
     (case ensureUniqueKeyValid (uniqueKey r) of
        Inl e \<Rightarrow> (Inl e, s)
      | Inr _ \<Rightarrow>
          (case ensureInProgressAndNotReclaimed (uniqueKey r) s of
             Inl e \<Rightarrow> (Inl e, s)
           | Inr _ \<Rightarrow>
               (case ensureIsInitialized s of
                  Inl e \<Rightarrow> (Inl e, s)
                | Inr _ \<Rightarrow> (Inr (), s\<lparr> reclaimed := dictSet (uniqueKey r) (reclaimed s) \<rparr>))))"

text \<open>
  The handler of the \<open>PERSIST_STATE\<close> event. \<open>stored\<close> says whether \<open>setValue\<close>
  succeeds; the result is the state object handed to \<open>setValue\<close>, if it was called.
  The write is taken to settle before the next call on the list.
\<close>

definition onPersistState :: "bool \<Rightarrow> request_list \<Rightarrow> snapshot option \<times> request_list" where
  "onPersistState stored s =
     (if \<not> persistHandler s \<or> isStatePersisted s then (None, s)
      else (case getState s of
              (Inl e, s') \<Rightarrow> (None, s')
            | (Inr st, s') \<Rightarrow>
                (if stored then (Some st, s'\<lparr> isStatePersisted := True \<rparr>)
                 else (Some st, s'\<lparr> logged := logged s' @ [CannotPersist] \<rparr>))))"

text \<open>The requests handed to \<open>_addRequest\<close> while the sources are loaded, in the order
  of the calls.\<close>

fun sourceItems :: "source list \<Rightarrow> request list" where
  "sourceItems [] = []"
| "sourceItems (Plain r # rest) = r # sourceItems rest"
| "sourceItems (RequestsFromUrl None # rest) = sourceItems rest"
| "sourceItems (RequestsFromUrl (Some urlsArr) # rest) = urlsArr @ sourceItems rest"

section \<open>Repeated calls and reachable states\<close>

text \<open>\<open>n\<close> calls of \<open>fetchNextRequest\<close> in a row: what each call resolved to, and the
  list afterwards.\<close>

fun fetchMany :: "(string list \<Rightarrow> string option) \<Rightarrow> nat \<Rightarrow> request_list \<Rightarrow> (error + fetched) list \<times> request_list" where
  "fetchMany getFirstKey 0 s = ([], s)"
| "fetchMany getFirstKey (Suc n) s =
     (case fetchNextRequest getFirstKey s of
        (res, s') \<Rightarrow> (case fetchMany getFirstKey n s' of (rest, s'') \<Rightarrow> (res # rest, s'')))"

text \<open>
  The states a \<open>RequestList\<close> can be in once \<open>initialize()\<close> has resolved: the state
  it resolved in, and every state a later method call or \<open>PERSIST_STATE\<close> event leads to
  (a call that throws leaves the state as it was). \<open>getState\<close>, \<open>isEmpty\<close> and
  \<open>isFinished\<close> change nothing.
\<close>

inductive reachable :: "(string list \<Rightarrow> string option) \<Rightarrow> request_list \<Rightarrow> bool"
  for getFirstKey :: "string list \<Rightarrow> string option" where
  reach_initialize:
    "initialize (newRequestList getValue opts) = (Inr (), s) \<Longrightarrow> reachable getFirstKey s"
| reach_fetchNextRequest:
    "reachable getFirstKey s \<Longrightarrow> fetchNextRequest getFirstKey s = (res, s') \<Longrightarrow> reachable getFirstKey s'"
| reach_markRequestHandled:
    "reachable getFirstKey s \<Longrightarrow> markRequestHandled r s = (ok, s') \<Longrightarrow> reachable getFirstKey s'"
| reach_reclaimRequest:
    "reachable getFirstKey s \<Longrightarrow> reclaimRequest r s = (ok, s') \<Longrightarrow> reachable getFirstKey s'"
| reach_onPersistState:
    "reachable getFirstKey s \<Longrightarrow> onPersistState stored s = (written, s') \<Longrightarrow> reachable getFirstKey s'"

text \<open>
  The position dictionary and the array agree: a key with a position is the key of the
  request there, is a valid unique key and no inherited property name; every request is
  found under its key.
\<close>

definition indexed :: "request_list \<Rightarrow> bool" where
  "indexed s \<longleftrightarrow>
     (\<forall>k i. map_of (uniqueKeyToIndex s) k = Some i \<longrightarrow>
        i < length (requests s) \<and> uniqueKey (requests s ! i) = k \<and> k \<noteq> [] \<and>
        k \<notin> set objectPrototypeKeys) \<and>
     (\<forall>i < length (requests s). map_of (uniqueKeyToIndex s) (uniqueKey (requests s ! i)) = Some i)"

text \<open>What holds of every reachable state.\<close>

definition consistent :: "request_list \<Rightarrow> bool" where
  "consistent s \<longleftrightarrow>
     indexed s \<and>
     (\<forall>k \<in> set (inProgress s). map_of (uniqueKeyToIndex s) k \<noteq> None) \<and>
     set (reclaimed s) \<subseteq> set (inProgress s) \<and>
     (nextIndex s = NaN \<or> (\<exists>n \<le> length (requests s). nextIndex s = js_num n))"

section \<open>Example data\<close>

text \<open>A request with the given unique key, an empty key-value store, and the options
  \<open>{ sources: [{uniqueKey: 'a'}, {uniqueKey: 'b'}, {uniqueKey: 'c'}] }\<close>.\<close>

definition item :: "string \<Rightarrow> request" where
  "item k = \<lparr> uniqueKey = k, payload = [] \<rparr>"

definition noStore :: "string \<Rightarrow> snapshot option" where
  "noStore key = None"

definition abcOptions :: options where
  "abcOptions =
     \<lparr> opt_sources = [Plain (item ''a''), Plain (item ''b''), Plain (item ''c'')],
       opt_persistStateKey = None,
       opt_state = None \<rparr>"

text \<open>The list built from these options once \<open>initialize()\<close> has resolved, and a list
  with the single request \<open>a\<close>.\<close>

definition abcQueue :: request_list where
  "abcQueue = snd (initialize (newRequestList noStore abcOptions))"

definition oneQueue :: request_list where
  "oneQueue = snd (initialize (newRequestList noStore (abcOptions\<lparr> opt_sources := [Plain (item ''a'')] \<rparr>)))"

text \<open>States after \<open>fetchNextRequest()\<close>, and after reclaiming the request it returned.\<close>

definition aFetched :: request_list where
  "aFetched = snd (fetchNextRequest firstOwnKey abcQueue)"

definition aReclaimed :: request_list where
  "aReclaimed = snd (reclaimRequest (item ''a'') aFetched)"

definition oneFetched :: request_list where
  "oneFetched = snd (fetchNextRequest firstOwnKey oneQueue)"

text \<open>A list that persists its state under the key \<open>state\<close>: after one
  \<open>fetchNextRequest()\<close> and a \<open>PERSIST_STATE\<close> event whose write succeeded.\<close>

definition aPersisted :: request_list where
  "aPersisted =
     snd (onPersistState True
       (snd (fetchNextRequest firstOwnKey
         (snd (initialize (newRequestList noStore (abcOptions\<lparr> opt_persistStateKey := Some ''state'' \<rparr>)))))))"

text \<open>The list of three requests after three calls of \<open>fetchNextRequest()\<close>.\<close>

definition allFetched :: request_list where
  "allFetched = snd (fetchMany firstOwnKey 3 abcQueue)"

text \<open>Sources in which the keys \<open>a\<close> and \<open>b\<close> occur twice, once of them in a list
  fetched from a URL, and the list built from them.\<close>

definition dupOptions :: options where
  "dupOptions =
     \<lparr> opt_sources =
         [Plain \<lparr> uniqueKey = ''a'', payload = ''first'' \<rparr>,
          RequestsFromUrl (Some [item ''b'', \<lparr> uniqueKey = ''a'', payload = ''second'' \<rparr>]),
          Plain \<lparr> uniqueKey = ''b'', payload = ''third'' \<rparr>],
       opt_persistStateKey = None,
       opt_state = None \<rparr>"

definition dupQueue :: request_list where
  "dupQueue = snd (initialize (newRequestList noStore dupOptions))"

text \<open>The options \<open>{ sources: [a, b, c], state: { nextIndex: NaN, nextUniqueKey: null,
  inProgress: {} } }\<close>.\<close>

definition nanOptions :: options where
  "nanOptions =
     abcOptions\<lparr> opt_state :=
       Some \<lparr> state_nextIndex = Number NaN, state_nextUniqueKey = None, state_inProgress = [] \<rparr> \<rparr>"

text \<open>The list of three requests after two calls of \<open>fetchNextRequest()\<close>, the state
  object \<open>getState()\<close> returns then, and a second list built from the same sources and
  that state object.\<close>

definition abFetched :: request_list where
  "abFetched = snd (fetchMany firstOwnKey 2 abcQueue)"

definition abSnapshot :: snapshot where
  "abSnapshot =
     \<lparr> state_nextIndex = Number (Fin 2), state_nextUniqueKey = Some ''c'',
       state_inProgress = [''a'', ''b''] \<rparr>"

definition abRestored :: request_list where
  "abRestored = snd (initialize (newRequestList noStore (abcOptions\<lparr> opt_state := Some abSnapshot \<rparr>)))"





section \<open>Basic facts\<close>

lemma firstOwnKey_contract: "getFirstKeyContract firstOwnKey"
  by (auto simp: getFirstKeyContract_def firstOwnKey_def split: list.splits)

lemma js_lt_num [simp]: "js_lt (js_num a) (js_num b) = (a < b)"
  by (simp add: js_num_def)

lemma js_ge_num [simp]: "js_ge (js_num a) (js_num b) = (b \<le> a)"
  by (auto simp add: js_num_def js_ge_def)

lemma js_index_num [simp]: "js_index xs (js_num n) = (if n < length xs then Some (xs ! n) else None)"
  by (simp add: js_index_def js_num_def)

lemma js_incr_num [simp]: "js_incr (js_num n) = js_num (Suc n)"
  by (simp add: js_num_def)

lemma js_num_inject [simp]: "js_num a = js_num b \<longleftrightarrow> a = b"
  by (simp add: js_num_def)

lemma js_num_not_NaN [simp]: "js_num a \<noteq> NaN" "NaN \<noteq> js_num a"
  by (simp_all add: js_num_def)

lemma js_lt_NaN [simp]: "\<not> js_lt NaN x" "\<not> js_lt x NaN"
  by (cases x; simp)+

lemma js_ge_NaN [simp]: "\<not> js_ge NaN x" "\<not> js_ge x NaN"
  by (simp_all add: js_ge_def)

lemma checkNextIndex_Inr:
  assumes "checkNextIndex st rs = Inr nx"
  shows "state_nextIndex st = Number nx \<and>
         (nx = NaN \<or> (\<exists>n\<le>length rs. nx = js_num n \<and>
             (n < length rs \<longrightarrow> state_nextUniqueKey st = Some (uniqueKey (rs ! n)))))"
proof (cases "state_nextIndex st")
  case NotNumber
  with assms show ?thesis by (simp add: checkNextIndex_def)
next
  case (Number x)
  with assms have nx: "x = nx"
    by (auto simp: checkNextIndex_def split: if_splits option.splits)
  show ?thesis
  proof (cases nx)
    case NaN
    with Number nx show ?thesis by simp
  next
    case NegInf
    with Number nx assms show ?thesis by (simp add: checkNextIndex_def)
  next
    case PosInf
    with Number nx assms show ?thesis by (simp add: checkNextIndex_def js_num_def)
  next
    case (Fin a)
    from assms Number nx Fin have a0: "0 \<le> a" and al: "a \<le> of_nat (length rs)"
      by (auto simp: checkNextIndex_def js_num_def split: if_splits option.splits)
    show ?thesis
    proof (cases "a < of_nat (length rs)")
      case True
      with assms Number nx Fin a0 have int: "of_int \<lfloor>a\<rfloor> = a"
        and key: "state_nextUniqueKey st = Some (uniqueKey (rs ! nat \<lfloor>a\<rfloor>))"
        by (auto simp: checkNextIndex_def js_num_def js_index_def split: if_splits option.splits)
      from int a0 have "a = of_nat (nat \<lfloor>a\<rfloor>)"
        by (metis of_nat_nat zero_le_floor)
      moreover from this True have "nat \<lfloor>a\<rfloor> < length rs"
        by (metis of_nat_less_iff)
      ultimately show ?thesis using Number nx Fin key
        by (auto simp: js_num_def intro!: exI[of _ "nat \<lfloor>a\<rfloor>"])
    next
      case False
      with al have "a = of_nat (length rs)" by simp
      with Number nx Fin show ?thesis by (auto simp: js_num_def)
    qed
  qed
qed


lemma map_of_snoc:
  "map_of (m @ [(k, v)]) k' = (case map_of m k' of Some i \<Rightarrow> Some i | None \<Rightarrow> if k' = k then Some v else None)"
  by (induction m) auto

declare map_of_append [simp del]

lemma addRequest_frame:
  assumes "addRequest r s = (res, s')"
  shows "initialState s' = initialState s \<and> nextIndex s' = nextIndex s \<and>
         inProgress s' = inProgress s \<and> reclaimed s' = reclaimed s \<and>
         persistStateKey s' = persistStateKey s \<and> isStatePersisted s' = isStatePersisted s \<and>
         isLoading s' = isLoading s \<and> isInitialized s' = isInitialized s \<and>
         sources s' = sources s \<and> persistHandler s' = persistHandler s \<and> logged s' = logged s"
  using assms by (auto simp: addRequest_def ensureUniqueKeyValid_def split: if_splits)

lemma addRequest_indexed:
  assumes "indexed s" and "addRequest r s = (res, s')"
  shows "indexed s'"
proof (cases "uniqueKey r \<noteq> [] \<and> indexUndefined (uniqueKeyToIndex s) (uniqueKey r)")
  case False
  with assms show ?thesis
    by (auto simp: addRequest_def ensureUniqueKeyValid_def split: if_splits)
next
  case True
  with assms(2) have s': "s' = s\<lparr> uniqueKeyToIndex := uniqueKeyToIndex s @ [(uniqueKey r, length (requests s))],
                            requests := requests s @ [r] \<rparr>"
    by (auto simp: addRequest_def ensureUniqueKeyValid_def)
  from True have new: "map_of (uniqueKeyToIndex s) (uniqueKey r) = None"
    and ok: "uniqueKey r \<noteq> []" "uniqueKey r \<notin> set objectPrototypeKeys"
    by (auto simp: indexUndefined_def)
  from assms(1) have old: "\<And>k i. map_of (uniqueKeyToIndex s) k = Some i \<Longrightarrow>
        i < length (requests s) \<and> uniqueKey (requests s ! i) = k \<and> k \<noteq> [] \<and> k \<notin> set objectPrototypeKeys"
    and old2: "\<And>i. i < length (requests s) \<Longrightarrow> map_of (uniqueKeyToIndex s) (uniqueKey (requests s ! i)) = Some i"
    by (auto simp: indexed_def)
  show ?thesis
    unfolding indexed_def s'
  proof (intro conjI allI impI)
    fix k i
    assume a: "map_of (uniqueKeyToIndex (s\<lparr>uniqueKeyToIndex := uniqueKeyToIndex s @ [(uniqueKey r, length (requests s))],
                  requests := requests s @ [r]\<rparr>)) k = Some i"
    show "i < length (requests (s\<lparr>uniqueKeyToIndex := uniqueKeyToIndex s @ [(uniqueKey r, length (requests s))],
                  requests := requests s @ [r]\<rparr>))"
      using a old[of k i] by (auto simp: map_of_snoc split: option.splits if_splits)
    show "uniqueKey (requests (s\<lparr>uniqueKeyToIndex := uniqueKeyToIndex s @ [(uniqueKey r, length (requests s))],
                  requests := requests s @ [r]\<rparr>) ! i) = k"
      using a old[of k i] by (auto simp: map_of_snoc nth_append split: option.splits if_splits)
    show "k \<noteq> []"
      using a old[of k i] ok by (auto simp: map_of_snoc split: option.splits if_splits)
    show "k \<notin> set objectPrototypeKeys"
      using a old[of k i] ok by (auto simp: map_of_snoc split: option.splits if_splits)
  next
    fix i
    assume "i < length (requests (s\<lparr>uniqueKeyToIndex := uniqueKeyToIndex s @ [(uniqueKey r, length (requests s))],
                  requests := requests s @ [r]\<rparr>))"
    then show "map_of (uniqueKeyToIndex (s\<lparr>uniqueKeyToIndex := uniqueKeyToIndex s @ [(uniqueKey r, length (requests s))],
                  requests := requests s @ [r]\<rparr>))
               (uniqueKey (requests (s\<lparr>uniqueKeyToIndex := uniqueKeyToIndex s @ [(uniqueKey r, length (requests s))],
                  requests := requests s @ [r]\<rparr>) ! i)) = Some i"
      using old2[of i] new by (auto simp: map_of_snoc nth_append less_Suc_eq)
  qed
qed

lemma addRequests_frame:
  "addRequests rs s = (res, s') \<Longrightarrow>
     initialState s' = initialState s \<and> nextIndex s' = nextIndex s \<and>
         inProgress s' = inProgress s \<and> reclaimed s' = reclaimed s \<and>
         persistStateKey s' = persistStateKey s \<and> isStatePersisted s' = isStatePersisted s \<and>
         isLoading s' = isLoading s \<and> isInitialized s' = isInitialized s \<and>
         sources s' = sources s \<and> persistHandler s' = persistHandler s"
proof (induction rs arbitrary: s)
  case Nil
  then show ?case by simp
next
  case (Cons r rs)
  obtain res1 s1 where a: "addRequest r s = (res1, s1)" by (cases "addRequest r s")
  show ?case
  proof (cases res1)
    case (Inl e)
    with Cons.prems a addRequest_frame[OF a] show ?thesis by simp
  next
    case (Inr u)
    with Cons.prems a have "addRequests rs s1 = (res, s')" by simp
    from Cons.IH[OF this] addRequest_frame[OF a] show ?thesis by simp
  qed
qed

lemma addRequests_indexed:
  "indexed s \<Longrightarrow> addRequests rs s = (res, s') \<Longrightarrow> indexed s'"
proof (induction rs arbitrary: s)
  case Nil
  then show ?case by simp
next
  case (Cons r rs)
  obtain res1 s1 where a: "addRequest r s = (res1, s1)" by (cases "addRequest r s")
  from Cons.prems(1) a have i1: "indexed s1" by (rule addRequest_indexed)
  show ?case
  proof (cases res1)
    case (Inl e)
    with Cons.prems a i1 show ?thesis by simp
  next
    case (Inr u)
    with Cons.prems a have "addRequests rs s1 = (res, s')" by simp
    with i1 show ?thesis by (rule Cons.IH)
  qed
qed

lemma indexed_frame [simp]:
  "indexed (s\<lparr> logged := l \<rparr>) = indexed s"
  "indexed (s\<lparr> isStatePersisted := b \<rparr>) = indexed s"
  "indexed (s\<lparr> isInitialized := b \<rparr>) = indexed s"
  "indexed (s\<lparr> persistHandler := b \<rparr>) = indexed s"
  "indexed (s\<lparr> isLoading := b \<rparr>) = indexed s"
  "indexed (s\<lparr> nextIndex := x \<rparr>) = indexed s"
  "indexed (s\<lparr> inProgress := d \<rparr>) = indexed s"
  "indexed (s\<lparr> reclaimed := d \<rparr>) = indexed s"
  by (simp_all add: indexed_def)

lemma addRequestsFromUrl_shape:
  assumes "addRequestsFromUrl f s = (res, s')"
  shows "\<exists>rs r1 s1 l. addRequests rs s = (r1, s1) \<and> s' = s1\<lparr> logged := l \<rparr>"
proof (cases f)
  case None
  with assms have "s' = s\<lparr> logged := logged s @ [CannotFetch] \<rparr>"
    by (simp add: addRequestsFromUrl_def)
  moreover have "addRequests [] s = (Inr (), s)" by simp
  ultimately show ?thesis by blast
next
  case (Some urls)
  show ?thesis
  proof (cases urls)
    case Nil
    with Some assms have "s' = s\<lparr> logged := logged s @ [ListEmpty] \<rparr>"
      by (simp add: addRequestsFromUrl_def)
    moreover have "addRequests [] s = (Inr (), s)" by simp
    ultimately show ?thesis by blast
  next
    case (Cons u us)
    obtain r1 s1 where a: "addRequests urls s = (r1, s1)" by (cases "addRequests urls s")
    have "\<exists>l. s' = s1\<lparr> logged := l \<rparr>"
    proof (cases r1)
      case (Inl e)
      with assms Some Cons a have "s' = s1\<lparr> logged := logged s1 @ [CannotFetch] \<rparr>"
        by (simp add: addRequestsFromUrl_def)
      then show ?thesis by blast
    next
      case (Inr v)
      with assms Some Cons a have "s' = s1\<lparr> logged := logged s1 @
          [ListFetched (length urls) (length (requests s1) - length (requests s))
             (length urls - (length (requests s1) - length (requests s)))] \<rparr>"
        by (simp add: addRequestsFromUrl_def Let_def)
      then show ?thesis by blast
    qed
    with a show ?thesis by blast
  qed
qed

lemma addRequestsFromUrl_frame:
  assumes "addRequestsFromUrl f s = (res, s')"
  shows "initialState s' = initialState s \<and> nextIndex s' = nextIndex s \<and>
         inProgress s' = inProgress s \<and> reclaimed s' = reclaimed s \<and>
         persistStateKey s' = persistStateKey s \<and> isStatePersisted s' = isStatePersisted s \<and>
         isLoading s' = isLoading s \<and> isInitialized s' = isInitialized s \<and>
         sources s' = sources s \<and> persistHandler s' = persistHandler s"
proof -
  from addRequestsFromUrl_shape[OF assms] obtain rs r1 s1 l where
    a: "addRequests rs s = (r1, s1)" and s': "s' = s1\<lparr> logged := l \<rparr>" by blast
  from addRequests_frame[OF a] show ?thesis unfolding s' by simp
qed

lemma addRequestsFromUrl_indexed:
  assumes "indexed s" and "addRequestsFromUrl f s = (res, s')"
  shows "indexed s'"
proof -
  from addRequestsFromUrl_shape[OF assms(2)] obtain rs r1 s1 l where
    a: "addRequests rs s = (r1, s1)" and s': "s' = s1\<lparr> logged := l \<rparr>" by blast
  from addRequests_indexed[OF assms(1) a] show ?thesis unfolding s' by simp
qed

lemma loadSources_frame:
  "loadSources srcs s = (res, s') \<Longrightarrow>
     initialState s' = initialState s \<and> nextIndex s' = nextIndex s \<and>
         inProgress s' = inProgress s \<and> reclaimed s' = reclaimed s \<and>
         persistStateKey s' = persistStateKey s \<and> isStatePersisted s' = isStatePersisted s \<and>
         isLoading s' = isLoading s \<and> isInitialized s' = isInitialized s \<and>
         sources s' = sources s \<and> persistHandler s' = persistHandler s"
proof (induction srcs arbitrary: s)
  case Nil
  then show ?case by simp
next
  case (Cons src rest)
  obtain res1 s1 where a: "(case src of Plain r \<Rightarrow> addRequest r s
                      | RequestsFromUrl f \<Rightarrow> addRequestsFromUrl f s) = (res1, s1)"
    by (cases "(case src of Plain r \<Rightarrow> addRequest r s | RequestsFromUrl f \<Rightarrow> addRequestsFromUrl f s)")
  have f1: "initialState s1 = initialState s \<and> nextIndex s1 = nextIndex s \<and>
         inProgress s1 = inProgress s \<and> reclaimed s1 = reclaimed s \<and>
         persistStateKey s1 = persistStateKey s \<and> isStatePersisted s1 = isStatePersisted s \<and>
         isLoading s1 = isLoading s \<and> isInitialized s1 = isInitialized s \<and>
         sources s1 = sources s \<and> persistHandler s1 = persistHandler s"
  proof (cases src)
    case (Plain r)
    with a have "addRequest r s = (res1, s1)" by simp
    from addRequest_frame[OF this] show ?thesis by simp
  next
    case (RequestsFromUrl f)
    with a have "addRequestsFromUrl f s = (res1, s1)" by simp
    from addRequestsFromUrl_frame[OF this] show ?thesis by simp
  qed
  show ?case
  proof (cases res1)
    case (Inl e)
    with Cons.prems a f1 show ?thesis by simp
  next
    case (Inr u)
    with Cons.prems a have "loadSources rest s1 = (res, s')" by simp
    from Cons.IH[OF this] f1 show ?thesis by simp
  qed
qed

lemma loadSources_indexed:
  "indexed s \<Longrightarrow> loadSources srcs s = (res, s') \<Longrightarrow> indexed s'"
proof (induction srcs arbitrary: s)
  case Nil
  then show ?case by simp
next
  case (Cons src rest)
  obtain res1 s1 where a: "(case src of Plain r \<Rightarrow> addRequest r s
                      | RequestsFromUrl f \<Rightarrow> addRequestsFromUrl f s) = (res1, s1)"
    by (cases "(case src of Plain r \<Rightarrow> addRequest r s | RequestsFromUrl f \<Rightarrow> addRequestsFromUrl f s)")
  have i1: "indexed s1"
  proof (cases src)
    case (Plain r)
    with a have "addRequest r s = (res1, s1)" by simp
    with Cons.prems(1) show ?thesis by (rule addRequest_indexed)
  next
    case (RequestsFromUrl f)
    with a have "addRequestsFromUrl f s = (res1, s1)" by simp
    with Cons.prems(1) show ?thesis by (rule addRequestsFromUrl_indexed)
  qed
  show ?case
  proof (cases res1)
    case (Inl e)
    with Cons.prems a i1 show ?thesis by simp
  next
    case (Inr u)
    with Cons.prems a have "loadSources rest s1 = (res, s')" by simp
    with i1 show ?thesis by (rule Cons.IH)
  qed
qed


lemma collectInvalid_eq:
  "collectInvalid m nx ks del =
     (if \<forall>k\<in>set ks. map_of m k \<noteq> None
      then Inr (del @ filter (\<lambda>k. js_ge (js_num (the (map_of m k))) nx) ks)
      else Inl UnknownUniqueKey)"
  by (induction ks arbitrary: del) (auto split: option.splits)

lemma fold_dictDelete: "fold dictDelete del d = filter (\<lambda>k. k \<notin> set del) d"
proof (induction del arbitrary: d)
  case Nil
  then show ?case by simp
next
  case (Cons x xs)
  have "dictDelete x d = filter (\<lambda>k. k \<noteq> x) d"
    by (induction d) (auto simp: dictDelete_def)
  with Cons show ?case by (simp add: conj_commute)
qed

lemma set_dictSet_sub: "set (dictSet k d) \<subseteq> insert k (set d)"
  by (auto simp: dictSet_def)

lemma set_dictSet_sup: "set d \<subseteq> set (dictSet k d)"
  by (auto simp: dictSet_def)

lemma set_dictDelete [simp]: "set (dictDelete k d) = set d - {k}"
  by (auto simp: dictDelete_def)

lemma consistent_frame [simp]:
  "consistent (s\<lparr> isStatePersisted := b \<rparr>) = consistent s"
  "consistent (s\<lparr> logged := l \<rparr>) = consistent s"
  "consistent (s\<lparr> isInitialized := b \<rparr>) = consistent s"
  "consistent (s\<lparr> persistHandler := b \<rparr>) = consistent s"
  "consistent (s\<lparr> isLoading := b \<rparr>) = consistent s"
  by (simp_all add: consistent_def indexed_def)

lemma restoreState_Inr:
  assumes "restoreState st s = (Inr u, s')"
  shows "\<exists>nx. checkNextIndex st (requests s) = Inr nx \<and>
           (\<forall>k\<in>set (state_inProgress st). map_of (uniqueKeyToIndex s) k \<noteq> None) \<and>
           s' = s\<lparr> nextIndex := nx,
                   inProgress := filter (\<lambda>k. \<not> js_ge (js_num (the (map_of (uniqueKeyToIndex s) k))) nx) (state_inProgress st),
                   reclaimed := filter (\<lambda>k. \<not> js_ge (js_num (the (map_of (uniqueKeyToIndex s) k))) nx) (state_inProgress st),
                   logged := logged s @
                     (if filter (\<lambda>k. js_ge (js_num (the (map_of (uniqueKeyToIndex s) k))) nx) (state_inProgress st) \<noteq> []
                      then [InconsistentInProgress (filter (\<lambda>k. js_ge (js_num (the (map_of (uniqueKeyToIndex s) k))) nx) (state_inProgress st))]
                      else []) \<rparr>"
proof -
  from assms obtain nx where nx: "checkNextIndex st (requests s) = Inr nx"
    by (auto simp: restoreState_def split: sum.splits)
  with assms have all: "\<forall>k\<in>set (state_inProgress st). map_of (uniqueKeyToIndex s) k \<noteq> None"
    by (auto simp: restoreState_def collectInvalid_eq split: if_splits)
  have "filter (\<lambda>k. k \<notin> set (filter (\<lambda>k. js_ge (js_num (the (map_of (uniqueKeyToIndex s) k))) nx) (state_inProgress st)))
          (state_inProgress st)
        = filter (\<lambda>k. \<not> js_ge (js_num (the (map_of (uniqueKeyToIndex s) k))) nx) (state_inProgress st)"
    by (rule filter_cong) auto
  with assms nx all show ?thesis
    by (simp add: restoreState_def collectInvalid_eq fold_dictDelete Let_def)
qed

lemma restoreState_consistent:
  assumes "indexed s" and "restoreState st s = (Inr u, s')"
  shows "consistent s'"
proof -
  from restoreState_Inr[OF assms(2)] obtain nx where
    nx: "checkNextIndex st (requests s) = Inr nx"
    and all: "\<forall>k\<in>set (state_inProgress st). map_of (uniqueKeyToIndex s) k \<noteq> None"
    and s': "s' = s\<lparr> nextIndex := nx,
                   inProgress := filter (\<lambda>k. \<not> js_ge (js_num (the (map_of (uniqueKeyToIndex s) k))) nx) (state_inProgress st),
                   reclaimed := filter (\<lambda>k. \<not> js_ge (js_num (the (map_of (uniqueKeyToIndex s) k))) nx) (state_inProgress st),
                   logged := logged s @
                     (if filter (\<lambda>k. js_ge (js_num (the (map_of (uniqueKeyToIndex s) k))) nx) (state_inProgress st) \<noteq> []
                      then [InconsistentInProgress (filter (\<lambda>k. js_ge (js_num (the (map_of (uniqueKeyToIndex s) k))) nx) (state_inProgress st))]
                      else []) \<rparr>"
    by blast
  from checkNextIndex_Inr[OF nx] have "nx = NaN \<or> (\<exists>n\<le>length (requests s). nx = js_num n)"
    by blast
  moreover from assms(1) have "indexed s'" unfolding s' by (simp add: indexed_def)
  ultimately show ?thesis using all unfolding s' consistent_def by auto
qed

lemma restoreState_frame:
  assumes "restoreState st s = (res, s')"
  shows "requests s' = requests s \<and> uniqueKeyToIndex s' = uniqueKeyToIndex s \<and>
         isInitialized s' = isInitialized s \<and> isLoading s' = isLoading s \<and>
         isStatePersisted s' = isStatePersisted s \<and> persistStateKey s' = persistStateKey s \<and>
         persistHandler s' = persistHandler s \<and> sources s' = sources s"
  using assms by (auto simp: restoreState_def Let_def split: sum.splits)

lemma indexed_new: "indexed (newRequestList getValue opts\<lparr> isLoading := True \<rparr>)"
  by (simp add: indexed_def newRequestList_def)

lemma initialize_new:
  assumes "initialize (newRequestList getValue opts) = (Inr u, s)"
  shows "\<exists>s1. loadSources (opt_sources opts) (newRequestList getValue opts\<lparr> isLoading := True \<rparr>) = (Inr (), s1) \<and>
           (case initialState (newRequestList getValue opts) of
              None \<Rightarrow> s = s1\<lparr> isInitialized := True,
                       persistHandler := (case opt_persistStateKey opts of None \<Rightarrow> False | Some key \<Rightarrow> key \<noteq> []) \<rparr>
            | Some st \<Rightarrow> (\<exists>s2. restoreState st s1 = (Inr (), s2) \<and>
                  s = s2\<lparr> isInitialized := True,
                       persistHandler := (case opt_persistStateKey opts of None \<Rightarrow> False | Some key \<Rightarrow> key \<noteq> []) \<rparr>))"
proof -
  let ?s0 = "newRequestList getValue opts\<lparr> isLoading := True \<rparr>"
  have nl: "\<not> isLoading (newRequestList getValue opts)" "sources (newRequestList getValue opts) = opt_sources opts"
    by (simp_all add: newRequestList_def)
  obtain res1 s1 where l: "loadSources (opt_sources opts) ?s0 = (res1, s1)"
    by (cases "loadSources (opt_sources opts) ?s0")
  from loadSources_frame[OF l] have f: "initialState s1 = initialState (newRequestList getValue opts)"
    "persistStateKey s1 = opt_persistStateKey opts"
    by (simp_all add: newRequestList_def)
  from assms nl l obtain u1 where r1: "res1 = Inr u1"
    by (cases res1) (auto simp: initialize_def)
  show ?thesis
  proof (cases "initialState (newRequestList getValue opts)")
    case None
    with assms nl l r1 f show ?thesis
      by (auto simp: initialize_def)
  next
    case (Some st)
    obtain res2 s2 where r: "restoreState st s1 = (res2, s2)" by (cases "restoreState st s1")
    from restoreState_frame[OF r] f have "persistStateKey s2 = opt_persistStateKey opts" by simp
    with assms nl l r1 f Some r show ?thesis
      by (cases res2) (auto simp: initialize_def)
  qed
qed

lemma initialize_consistent:
  assumes "initialize (newRequestList getValue opts) = (Inr u, s)"
  shows "consistent s \<and> isInitialized s"
proof -
  let ?s0 = "newRequestList getValue opts\<lparr> isLoading := True \<rparr>"
  from initialize_new[OF assms] obtain s1 where
    l: "loadSources (opt_sources opts) ?s0 = (Inr (), s1)"
    and c: "(case initialState (newRequestList getValue opts) of
              None \<Rightarrow> s = s1\<lparr> isInitialized := True,
                       persistHandler := (case opt_persistStateKey opts of None \<Rightarrow> False | Some key \<Rightarrow> key \<noteq> []) \<rparr>
            | Some st \<Rightarrow> (\<exists>s2. restoreState st s1 = (Inr (), s2) \<and>
                  s = s2\<lparr> isInitialized := True,
                       persistHandler := (case opt_persistStateKey opts of None \<Rightarrow> False | Some key \<Rightarrow> key \<noteq> []) \<rparr>))"
    by blast
  from indexed_new l have i1: "indexed s1" by (rule loadSources_indexed)
  from loadSources_frame[OF l] have f: "inProgress s1 = []" "reclaimed s1 = []" "nextIndex s1 = js_num 0"
    by (simp_all add: newRequestList_def js_num_def)
  show ?thesis
  proof (cases "initialState (newRequestList getValue opts)")
    case None
    with c i1 f show ?thesis by (auto simp: consistent_def)
  next
    case (Some st)
    with c obtain s2 where r: "restoreState st s1 = (Inr (), s2)"
      and s: "s = s2\<lparr> isInitialized := True,
                       persistHandler := (case opt_persistStateKey opts of None \<Rightarrow> False | Some key \<Rightarrow> key \<noteq> []) \<rparr>"
      by auto
    from restoreState_consistent[OF i1 r] s show ?thesis by simp
  qed
qed


lemma consistent_cursor:
  assumes "consistent s" and "js_lt (nextIndex s) (js_num (length (requests s)))"
  shows "\<exists>n < length (requests s). nextIndex s = js_num n"
  using assms by (auto simp: consistent_def)

lemma fetchNextRequest_consistent:
  assumes "consistent s" and "fetchNextRequest g s = (res, s')"
  shows "consistent s' \<and> isInitialized s' = isInitialized s"
proof (cases "isInitialized s")
  case False
  with assms show ?thesis by (simp add: fetchNextRequest_def ensureIsInitialized_def)
next
  case init: True
  show ?thesis
  proof (cases "keyTruthy (g (reclaimed s))")
    case True
    with assms(2) init have "s' = s\<lparr> reclaimed := dictDelete (the (g (reclaimed s))) (reclaimed s) \<rparr>"
      by (auto simp: fetchNextRequest_def ensureIsInitialized_def Let_def split: option.splits)
    with assms(1) show ?thesis by (auto simp: consistent_def)
  next
    case nokey: False
    show ?thesis
    proof (cases "js_lt (nextIndex s) (js_num (length (requests s)))")
      case False
      with assms nokey init show ?thesis
        by (simp add: fetchNextRequest_def ensureIsInitialized_def)
    next
      case True
      from consistent_cursor[OF assms(1) True] obtain n where
        n: "n < length (requests s)" "nextIndex s = js_num n" by blast
      with assms(2) nokey init True have
        s': "s' = s\<lparr> inProgress := dictSet (uniqueKey (requests s ! n)) (inProgress s),
                     nextIndex := js_num (Suc n), isStatePersisted := False \<rparr>"
        by (simp add: fetchNextRequest_def ensureIsInitialized_def)
      from assms(1) n have "map_of (uniqueKeyToIndex s) (uniqueKey (requests s ! n)) = Some n"
        by (simp add: consistent_def indexed_def)
      with assms(1) set_dictSet_sub[of "uniqueKey (requests s ! n)" "inProgress s"]
      have ip: "\<forall>k\<in>set (dictSet (uniqueKey (requests s ! n)) (inProgress s)). map_of (uniqueKeyToIndex s) k \<noteq> None"
        by (auto simp: consistent_def)
      from assms(1) set_dictSet_sup[of "inProgress s" "uniqueKey (requests s ! n)"]
      have rc: "set (reclaimed s) \<subseteq> set (dictSet (uniqueKey (requests s ! n)) (inProgress s))"
        by (auto simp: consistent_def)
      from n have nx: "\<exists>m \<le> length (requests s). js_num (Suc n) = js_num m"
        by (intro exI[of _ "Suc n"]) simp
      from assms(1) have "indexed s" by (simp add: consistent_def)
      with ip rc nx show ?thesis
        unfolding s' consistent_def by simp
    qed
  qed
qed

lemma markRequestHandled_consistent:
  assumes "consistent s" and "markRequestHandled r s = (res, s')"
  shows "consistent s' \<and> isInitialized s' = isInitialized s"
proof (cases res)
  case (Inl e)
  with assms show ?thesis
    by (auto simp: markRequestHandled_def split: sum.splits)
next
  case (Inr u)
  with assms(2) have s': "s' = s\<lparr> inProgress := dictDelete (uniqueKey r) (inProgress s), isStatePersisted := False \<rparr>"
    and nr: "uniqueKey r \<notin> set (reclaimed s)"
    by (auto simp: markRequestHandled_def ensureInProgressAndNotReclaimed_def dictTruthy_def
          split: sum.splits if_splits)
  with assms(1) show ?thesis unfolding s' consistent_def by auto
qed

lemma reclaimRequest_consistent:
  assumes "consistent s" and "reclaimRequest r s = (res, s')"
  shows "consistent s' \<and> isInitialized s' = isInitialized s"
proof (cases res)
  case (Inl e)
  with assms show ?thesis
    by (auto simp: reclaimRequest_def split: sum.splits)
next
  case (Inr u)
  with assms(2) have s': "s' = s\<lparr> reclaimed := dictSet (uniqueKey r) (reclaimed s) \<rparr>"
    and ip: "uniqueKey r \<in> set (inProgress s)"
    by (auto simp: reclaimRequest_def ensureInProgressAndNotReclaimed_def dictTruthy_def
          split: sum.splits if_splits)
  with assms(1) set_dictSet_sub[of "uniqueKey r" "reclaimed s"] show ?thesis
    unfolding s' consistent_def by auto
qed

lemma getState_state: "getState s = (res, s') \<Longrightarrow> s' = s"
  by (auto simp: getState_def split: sum.splits if_splits option.splits)

lemma onPersistState_consistent:
  assumes "consistent s" and "onPersistState stored s = (w, s')"
  shows "consistent s' \<and> isInitialized s' = isInitialized s"
proof -
  obtain res s1 where g: "getState s = (res, s1)" by (cases "getState s")
  from getState_state[OF g] have "s1 = s" .
  with assms g show ?thesis
    by (cases res) (auto simp: onPersistState_def split: if_splits)
qed

lemma reachable_consistent:
  "reachable g s \<Longrightarrow> consistent s \<and> isInitialized s"
proof (induction rule: reachable.induct)
  case (reach_initialize getValue opts s)
  then show ?case using initialize_consistent by (cases "()") blast
next
  case (reach_fetchNextRequest s res s')
  then show ?case using fetchNextRequest_consistent by blast
next
  case (reach_markRequestHandled s r ok s')
  then show ?case using markRequestHandled_consistent by blast
next
  case (reach_reclaimRequest s r ok s')
  then show ?case using reclaimRequest_consistent by blast
next
  case (reach_onPersistState s stored written s')
  then show ?case using onPersistState_consistent by blast
qed

section \<open>The example data, evaluated\<close>

lemma abcQueue_eq:
  "abcQueue =
      \<lparr> initialState = None,
        requests = [item ''a'', item ''b'', item ''c''],
        nextIndex = Fin 0,
        uniqueKeyToIndex = [(''a'', 0), (''b'', 1), (''c'', 2)],
        inProgress = [],
        reclaimed = [],
        persistStateKey = None,
        isStatePersisted = True,
        isLoading = True,
        isInitialized = True,
        sources = [Plain (item ''a''), Plain (item ''b''), Plain (item ''c'')],
        logged = [],
        persistHandler = False \<rparr>"
  by (simp add: abcQueue_def initialize_def newRequestList_def abcOptions_def noStore_def addRequest_def
        ensureUniqueKeyValid_def indexUndefined_def objectPrototypeKeys_def item_def)

lemma abcQueue_initialize: "initialize (newRequestList noStore abcOptions) = (Inr (), abcQueue)"
  by (simp add: abcQueue_def initialize_def newRequestList_def abcOptions_def noStore_def addRequest_def
        ensureUniqueKeyValid_def indexUndefined_def objectPrototypeKeys_def item_def)

lemma abcQueue_reachable: "reachable g abcQueue"
  using abcQueue_initialize by (rule reach_initialize)

lemma aFetched_eq:
  "aFetched = abcQueue\<lparr> inProgress := [''a''], nextIndex := Fin 1, isStatePersisted := False \<rparr>"
  by (simp add: aFetched_def abcQueue_eq fetchNextRequest_def ensureIsInitialized_def firstOwnKey_def
        keyTruthy_def js_num_def js_index_def dictSet_def item_def)

lemma aReclaimed_eq:
  "aReclaimed = abcQueue\<lparr> inProgress := [''a''], nextIndex := Fin 1, isStatePersisted := False,
      reclaimed := [''a''] \<rparr>"
  by (simp add: aReclaimed_def aFetched_eq abcQueue_eq reclaimRequest_def ensureIsInitialized_def
        ensureUniqueKeyValid_def ensureInProgressAndNotReclaimed_def dictTruthy_def
        objectPrototypeKeys_def dictSet_def item_def)

lemma reachable_fetch: "reachable g s \<Longrightarrow> reachable g (snd (fetchNextRequest g s))"
  by (rule reach_fetchNextRequest[OF _ surjective_pairing])

lemma reachable_reclaim: "reachable g s \<Longrightarrow> reachable g (snd (reclaimRequest r s))"
  by (rule reach_reclaimRequest[OF _ surjective_pairing])

lemma reachable_handled: "reachable g s \<Longrightarrow> reachable g (snd (markRequestHandled r s))"
  by (rule reach_markRequestHandled[OF _ surjective_pairing])

lemma aFetched_reachable: "reachable firstOwnKey aFetched"
  unfolding aFetched_def by (rule reachable_fetch[OF abcQueue_reachable])

lemma aReclaimed_reachable: "reachable firstOwnKey aReclaimed"
  unfolding aReclaimed_def by (rule reachable_reclaim[OF aFetched_reachable])

section \<open>The subset invariant\<close>

lemma fetchNextRequest_subset:
  assumes "set (reclaimed s) \<subseteq> set (inProgress s)" and "fetchNextRequest g s = (res, s')"
  shows "set (reclaimed s') \<subseteq> set (inProgress s')"
proof (cases "isInitialized s")
  case False
  with assms show ?thesis by (simp add: fetchNextRequest_def ensureIsInitialized_def)
next
  case init: True
  show ?thesis
  proof (cases "keyTruthy (g (reclaimed s))")
    case True
    with assms(2) init have "s' = s\<lparr> reclaimed := dictDelete (the (g (reclaimed s))) (reclaimed s) \<rparr>"
      by (auto simp: fetchNextRequest_def ensureIsInitialized_def Let_def split: option.splits)
    with assms(1) show ?thesis by auto
  next
    case nokey: False
    show ?thesis
    proof (cases "js_lt (nextIndex s) (js_num (length (requests s)))")
      case False
      with assms nokey init show ?thesis
        by (simp add: fetchNextRequest_def ensureIsInitialized_def)
    next
      case True
      with assms(2) nokey init have "s' = s \<or> (\<exists>k. s' = s\<lparr> inProgress := dictSet k (inProgress s),
                     nextIndex := js_incr (nextIndex s), isStatePersisted := False \<rparr>)"
        by (auto simp: fetchNextRequest_def ensureIsInitialized_def split: option.splits)
      with assms(1) set_dictSet_sup show ?thesis by fastforce
    qed
  qed
qed

text \<open>
  Claim C8. \<open>reclaimed\<close> is a subset of \<open>inProgress\<close> in the state \<open>initialize()\<close>
  resolves in, with or without a state object to restore, and every call of
  \<open>fetchNextRequest\<close>, \<open>markRequestHandled\<close> or \<open>reclaimRequest\<close> that does not throw
  leads from a state where it holds to a state where it holds.
\<close>

theorem reclaimed_subset_inProgress:
  "(initialize (newRequestList getValue opts) = (Inr (), s0) \<longrightarrow>
      set (reclaimed s0) \<subseteq> set (inProgress s0)) \<and>
   (set (reclaimed s) \<subseteq> set (inProgress s) \<longrightarrow>
      (fetchNextRequest g s = (Inr res, s1) \<longrightarrow> set (reclaimed s1) \<subseteq> set (inProgress s1)) \<and>
      (markRequestHandled r s = (Inr (), s2) \<longrightarrow> set (reclaimed s2) \<subseteq> set (inProgress s2)) \<and>
      (reclaimRequest r s = (Inr (), s3) \<longrightarrow> set (reclaimed s3) \<subseteq> set (inProgress s3)))"
proof (intro conjI impI)
  assume "initialize (newRequestList getValue opts) = (Inr (), s0)"
  from initialize_consistent[OF this] show "set (reclaimed s0) \<subseteq> set (inProgress s0)"
    by (simp add: consistent_def)
next
  assume "set (reclaimed s) \<subseteq> set (inProgress s)" and "fetchNextRequest g s = (Inr res, s1)"
  then show "set (reclaimed s1) \<subseteq> set (inProgress s1)" by (rule fetchNextRequest_subset)
next
  assume sub: "set (reclaimed s) \<subseteq> set (inProgress s)" and m: "markRequestHandled r s = (Inr (), s2)"
  from m have "s2 = s\<lparr> inProgress := dictDelete (uniqueKey r) (inProgress s), isStatePersisted := False \<rparr>"
    and "uniqueKey r \<notin> set (reclaimed s)"
    by (auto simp: markRequestHandled_def ensureInProgressAndNotReclaimed_def dictTruthy_def
          split: sum.splits if_splits)
  with sub show "set (reclaimed s2) \<subseteq> set (inProgress s2)" by auto
next
  assume sub: "set (reclaimed s) \<subseteq> set (inProgress s)" and m: "reclaimRequest r s = (Inr (), s3)"
  from m have "s3 = s\<lparr> reclaimed := dictSet (uniqueKey r) (reclaimed s) \<rparr>"
    and "uniqueKey r \<in> set (inProgress s)"
    by (auto simp: reclaimRequest_def ensureInProgressAndNotReclaimed_def dictTruthy_def
          split: sum.splits if_splits)
  with sub set_dictSet_sub[of "uniqueKey r" "reclaimed s"]
  show "set (reclaimed s3) \<subseteq> set (inProgress s3)" by auto
qed

theorem reclaimed_subset_inProgress_witness:
  "initialize (newRequestList noStore abcOptions) = (Inr (), abcQueue) \<and>
   set (reclaimed abcQueue) \<subseteq> set (inProgress abcQueue) \<and>
   set (reclaimed aFetched) \<subseteq> set (inProgress aFetched) \<and>
   fetchNextRequest firstOwnKey aFetched =
     (Inr (Request (item ''b'')), snd (fetchNextRequest firstOwnKey aFetched)) \<and>
   set (reclaimed (snd (fetchNextRequest firstOwnKey aFetched)))
     \<subseteq> set (inProgress (snd (fetchNextRequest firstOwnKey aFetched))) \<and>
   markRequestHandled (item ''a'') aFetched = (Inr (), snd (markRequestHandled (item ''a'') aFetched)) \<and>
   set (reclaimed (snd (markRequestHandled (item ''a'') aFetched)))
     \<subseteq> set (inProgress (snd (markRequestHandled (item ''a'') aFetched))) \<and>
   reclaimRequest (item ''a'') aFetched = (Inr (), aReclaimed) \<and>
   set (reclaimed aReclaimed) \<subseteq> set (inProgress aReclaimed)"
proof -
  have i: "initialize (newRequestList noStore abcOptions) = (Inr (), abcQueue)"
    by (rule abcQueue_initialize)
  have f: "fetchNextRequest firstOwnKey aFetched =
     (Inr (Request (item ''b'')), snd (fetchNextRequest firstOwnKey aFetched))"
    by (simp add: aFetched_eq abcQueue_eq fetchNextRequest_def ensureIsInitialized_def firstOwnKey_def
        keyTruthy_def js_num_def js_index_def)
  have h: "markRequestHandled (item ''a'') aFetched = (Inr (), snd (markRequestHandled (item ''a'') aFetched))"
    by (simp add: aFetched_eq abcQueue_eq markRequestHandled_def ensureIsInitialized_def
        ensureUniqueKeyValid_def ensureInProgressAndNotReclaimed_def dictTruthy_def
        objectPrototypeKeys_def item_def)
  have r: "reclaimRequest (item ''a'') aFetched = (Inr (), aReclaimed)"
    by (simp add: aReclaimed_def aFetched_eq abcQueue_eq reclaimRequest_def ensureIsInitialized_def
        ensureUniqueKeyValid_def ensureInProgressAndNotReclaimed_def dictTruthy_def
        objectPrototypeKeys_def item_def)
  have s: "set (reclaimed aFetched) \<subseteq> set (inProgress aFetched)"
    by (simp add: aFetched_eq abcQueue_eq)
  from reclaimed_subset_inProgress[of noStore abcOptions abcQueue aFetched firstOwnKey
      "Request (item ''b'')" "snd (fetchNextRequest firstOwnKey aFetched)" "item ''a''"
      "snd (markRequestHandled (item ''a'') aFetched)" aReclaimed] i f h r s
  show ?thesis by simp
qed

section \<open>Consequences of consistency\<close>

lemma contract_empty: "getFirstKeyContract g \<Longrightarrow> g [] = None"
  by (simp add: getFirstKeyContract_def)

lemma contract_member: "getFirstKeyContract g \<Longrightarrow> d \<noteq> [] \<Longrightarrow> \<exists>k. k \<in> set d \<and> g d = Some k"
  by (simp add: getFirstKeyContract_def)

lemma consistent_inProgress_key:
  assumes "consistent s" and "k \<in> set (inProgress s)"
  shows "\<exists>i. map_of (uniqueKeyToIndex s) k = Some i \<and> i < length (requests s) \<and>
             uniqueKey (requests s ! i) = k \<and> k \<noteq> [] \<and> k \<notin> set objectPrototypeKeys"
proof -
  from assms obtain i where "map_of (uniqueKeyToIndex s) k = Some i"
    by (auto simp: consistent_def)
  moreover from assms(1) have "indexed s" by (simp add: consistent_def)
  ultimately show ?thesis unfolding indexed_def by blast
qed

lemma keyTruthy_consistent:
  assumes "getFirstKeyContract g" and "consistent s" and "set d \<subseteq> set (inProgress s)"
  shows "keyTruthy (g d) \<longleftrightarrow> d \<noteq> []"
proof (cases "d = []")
  case True
  with assms(1) show ?thesis by (simp add: contract_empty keyTruthy_def)
next
  case False
  from contract_member[OF assms(1) False] obtain k where k: "k \<in> set d" "g d = Some k" by blast
  with assms(3) have "k \<in> set (inProgress s)" by blast
  from consistent_inProgress_key[OF assms(2) this] have "k \<noteq> []" by blast
  with k False show ?thesis by (simp add: keyTruthy_def)
qed

lemma consistent_reclaimed: "consistent s \<Longrightarrow> set (reclaimed s) \<subseteq> set (inProgress s)"
  by (simp add: consistent_def)

lemma oneQueue_eq:
  "oneQueue =
      \<lparr> initialState = None,
        requests = [item ''a''],
        nextIndex = Fin 0,
        uniqueKeyToIndex = [(''a'', 0)],
        inProgress = [],
        reclaimed = [],
        persistStateKey = None,
        isStatePersisted = True,
        isLoading = True,
        isInitialized = True,
        sources = [Plain (item ''a'')],
        logged = [],
        persistHandler = False \<rparr>"
  by (simp add: oneQueue_def initialize_def newRequestList_def abcOptions_def noStore_def addRequest_def
        ensureUniqueKeyValid_def indexUndefined_def objectPrototypeKeys_def item_def)

lemma oneQueue_reachable: "reachable g oneQueue"
proof -
  have "initialize (newRequestList noStore (abcOptions\<lparr> opt_sources := [Plain (item ''a'')] \<rparr>)) = (Inr (), oneQueue)"
    by (simp add: oneQueue_def initialize_def newRequestList_def abcOptions_def noStore_def addRequest_def
        ensureUniqueKeyValid_def indexUndefined_def objectPrototypeKeys_def item_def)
  then show ?thesis by (rule reach_initialize)
qed

lemma oneFetched_eq:
  "oneFetched = oneQueue\<lparr> inProgress := [''a''], nextIndex := Fin 1, isStatePersisted := False \<rparr>"
  by (simp add: oneFetched_def oneQueue_eq fetchNextRequest_def ensureIsInitialized_def firstOwnKey_def
        keyTruthy_def js_num_def js_index_def dictSet_def item_def)

lemma oneFetched_any:
  assumes "getFirstKeyContract g"
  shows "fetchNextRequest g oneQueue = (Inr (Request (item ''a'')), oneFetched)"
  using contract_empty[OF assms]
  by (simp add: oneFetched_eq oneQueue_eq fetchNextRequest_def ensureIsInitialized_def
        keyTruthy_def js_num_def js_index_def dictSet_def item_def)

section \<open>Empty and finished\<close>

text \<open>
  Claim C9. In every reachable state, \<open>isFinished()\<close> resolving to \<open>true\<close> implies that
  \<open>isEmpty()\<close> resolves to \<open>true\<close>. The converse fails: in the list with one request,
  after that request was fetched and neither handled nor reclaimed, \<open>isEmpty()\<close> is
  \<open>true\<close> and \<open>isFinished()\<close> is \<open>false\<close>.
\<close>

theorem isFinished_implies_isEmpty:
  assumes "getFirstKeyContract g"
  shows "(reachable g s \<and> isFinished g s = (Inr True, s) \<longrightarrow> isEmpty g s = (Inr True, s)) \<and>
         reachable g oneFetched \<and> length (requests oneFetched) = 1 \<and>
         fetchNextRequest g oneQueue = (Inr (Request (item ''a'')), oneFetched) \<and>
         isEmpty g oneFetched = (Inr True, oneFetched) \<and>
         isFinished g oneFetched = (Inr False, oneFetched)"
proof (intro conjI impI)
  assume a: "reachable g s \<and> isFinished g s = (Inr True, s)"
  then have c: "consistent s" and i: "isInitialized s" using reachable_consistent by blast+
  from a i have f: "\<not> keyTruthy (g (inProgress s))" "js_ge (nextIndex s) (js_num (length (requests s)))"
    by (auto simp: isFinished_def ensureIsInitialized_def)
  from f(1) keyTruthy_consistent[OF assms c, of "inProgress s"] have "inProgress s = []" by simp
  with consistent_reclaimed[OF c] have "reclaimed s = []" by simp
  with assms have "\<not> keyTruthy (g (reclaimed s))" by (simp add: contract_empty keyTruthy_def)
  with f(2) i show "isEmpty g s = (Inr True, s)"
    by (simp add: isEmpty_def ensureIsInitialized_def)
next
  show f: "fetchNextRequest g oneQueue = (Inr (Request (item ''a'')), oneFetched)"
    by (rule oneFetched_any[OF assms])
  from oneQueue_reachable f show "reachable g oneFetched" by (rule reach_fetchNextRequest)
  show "length (requests oneFetched) = 1" by (simp add: oneFetched_eq oneQueue_eq)
  from contract_empty[OF assms] show "isEmpty g oneFetched = (Inr True, oneFetched)"
    by (simp add: oneFetched_eq oneQueue_eq isEmpty_def ensureIsInitialized_def keyTruthy_def
          js_ge_def js_num_def)
  from contract_member[OF assms, of "[''a'']"] have "g [''a''] = Some ''a''" by simp
  then show "isFinished g oneFetched = (Inr False, oneFetched)"
    by (simp add: oneFetched_eq oneQueue_eq isFinished_def ensureIsInitialized_def keyTruthy_def)
qed

theorem isFinished_implies_isEmpty_witness:
  "getFirstKeyContract firstOwnKey \<and>
   reachable firstOwnKey (snd (markRequestHandled (item ''a'') oneFetched)) \<and>
   isFinished firstOwnKey (snd (markRequestHandled (item ''a'') oneFetched))
     = (Inr True, snd (markRequestHandled (item ''a'') oneFetched)) \<and>
   isEmpty firstOwnKey (snd (markRequestHandled (item ''a'') oneFetched))
     = (Inr True, snd (markRequestHandled (item ''a'') oneFetched)) \<and>
   isEmpty firstOwnKey oneFetched = (Inr True, oneFetched) \<and>
   isFinished firstOwnKey oneFetched = (Inr False, oneFetched)"
proof -
  let ?s = "snd (markRequestHandled (item ''a'') oneFetched)"
  have s: "?s = oneQueue\<lparr> inProgress := [], nextIndex := Fin 1, isStatePersisted := False \<rparr>"
    by (simp add: oneFetched_eq oneQueue_eq markRequestHandled_def ensureIsInitialized_def
        ensureUniqueKeyValid_def ensureInProgressAndNotReclaimed_def dictTruthy_def
        objectPrototypeKeys_def dictDelete_def item_def)
  have "reachable firstOwnKey oneFetched"
    unfolding oneFetched_def by (rule reachable_fetch[OF oneQueue_reachable])
  then have r: "reachable firstOwnKey ?s" by (rule reachable_handled)
  have f: "isFinished firstOwnKey ?s = (Inr True, ?s)"
    unfolding s by (simp add: oneQueue_eq isFinished_def ensureIsInitialized_def keyTruthy_def
          firstOwnKey_def js_ge_def js_num_def)
  from isFinished_implies_isEmpty[OF firstOwnKey_contract, of ?s] r f firstOwnKey_contract
  show ?thesis by simp
qed

section \<open>Handling and reclaiming\<close>

lemma getState_consistent:
  assumes "consistent s" and "isInitialized s"
  shows "getState s =
     (Inr \<lparr> state_nextIndex = Number (nextIndex s),
            state_nextUniqueKey =
              (if js_lt (nextIndex s) (js_num (length (requests s)))
               then map_option uniqueKey (js_index (requests s) (nextIndex s)) else None),
            state_inProgress = inProgress s \<rparr>, s)"
proof (cases "js_lt (nextIndex s) (js_num (length (requests s)))")
  case False
  with assms(2) show ?thesis by (simp add: getState_def ensureIsInitialized_def)
next
  case True
  from consistent_cursor[OF assms(1) True] obtain n where
    "n < length (requests s)" "nextIndex s = js_num n" by blast
  with assms(2) show ?thesis by (simp add: getState_def ensureIsInitialized_def)
qed

lemma reclaimRequest_Inr:
  assumes "consistent s" and "isInitialized s"
    and "uniqueKey r \<in> set (inProgress s)" and "uniqueKey r \<notin> set (reclaimed s)"
  shows "reclaimRequest r s = (Inr (), s\<lparr> reclaimed := reclaimed s @ [uniqueKey r] \<rparr>)"
proof -
  from consistent_inProgress_key[OF assms(1,3)]
  have "uniqueKey r \<noteq> []" "uniqueKey r \<notin> set objectPrototypeKeys" by blast+
  moreover from this(2) have "uniqueKey r \<noteq> ''__proto__''"
    by (auto simp: objectPrototypeKeys_def)
  ultimately show ?thesis using assms(2,3,4)
    by (simp add: reclaimRequest_def ensureUniqueKeyValid_def ensureInProgressAndNotReclaimed_def
          dictTruthy_def ensureIsInitialized_def dictSet_def)
qed

lemma markRequestHandled_Inr:
  assumes "consistent s" and "isInitialized s"
    and "uniqueKey r \<in> set (inProgress s)" and "uniqueKey r \<notin> set (reclaimed s)"
  shows "markRequestHandled r s =
     (Inr (), s\<lparr> inProgress := dictDelete (uniqueKey r) (inProgress s), isStatePersisted := False \<rparr>)"
proof -
  from consistent_inProgress_key[OF assms(1,3)]
  have "uniqueKey r \<noteq> []" "uniqueKey r \<notin> set objectPrototypeKeys" by blast+
  then show ?thesis using assms(2,3,4)
    by (simp add: markRequestHandled_def ensureUniqueKeyValid_def ensureInProgressAndNotReclaimed_def
          dictTruthy_def ensureIsInitialized_def)
qed

lemma ensure_Inl:
  assumes "consistent s" and "k \<notin> set (inProgress s) \<or> k \<in> set (reclaimed s)"
  shows "k = [] \<or> (\<exists>e. ensureInProgressAndNotReclaimed k s = Inl e)"
  using assms consistent_reclaimed[OF assms(1)]
  by (auto simp: ensureInProgressAndNotReclaimed_def dictTruthy_def)

lemma aPersisted_eq:
  "aPersisted = abcQueue\<lparr> inProgress := [''a''], nextIndex := Fin 1, persistStateKey := Some ''state'',
      persistHandler := True \<rparr>"
  by (simp add: aPersisted_def abcQueue_eq initialize_def newRequestList_def abcOptions_def noStore_def
        addRequest_def ensureUniqueKeyValid_def indexUndefined_def objectPrototypeKeys_def item_def
        fetchNextRequest_def ensureIsInitialized_def firstOwnKey_def
        keyTruthy_def js_num_def js_index_def dictSet_def onPersistState_def getState_def)

lemma reachable_persist: "reachable g s \<Longrightarrow> reachable g (snd (onPersistState stored s))"
  by (rule reach_onPersistState[OF _ surjective_pairing])

lemma aPersisted_reachable: "reachable firstOwnKey aPersisted"
proof -
  have "initialize (newRequestList noStore (abcOptions\<lparr> opt_persistStateKey := Some ''state'' \<rparr>))
      = (Inr (), snd (initialize (newRequestList noStore (abcOptions\<lparr> opt_persistStateKey := Some ''state'' \<rparr>))))"
    by (simp add: initialize_def newRequestList_def abcOptions_def noStore_def
        addRequest_def ensureUniqueKeyValid_def indexUndefined_def objectPrototypeKeys_def item_def)
  then have "reachable firstOwnKey
      (snd (initialize (newRequestList noStore (abcOptions\<lparr> opt_persistStateKey := Some ''state'' \<rparr>))))"
    by (rule reach_initialize)
  then show ?thesis unfolding aPersisted_def
    by (intro reachable_persist reachable_fetch)
qed

text \<open>
  Claim C10. In a reachable state where the key is in \<open>inProgress\<close> and not in
  \<open>reclaimed\<close>, \<open>reclaimRequest\<close> succeeds and changes the \<open>reclaimed\<close> field only:
  \<open>nextIndex\<close>, \<open>inProgress\<close> and \<open>isStatePersisted\<close> stay as they were, \<open>getState()\<close>
  returns the same object before and after, a \<open>PERSIST_STATE\<close> event writes the same
  after as before, and writes nothing when the state was persisted before the call.
\<close>

theorem reclaimRequest_changes_only_reclaimed:
  assumes "reachable g s"
    and "uniqueKey r \<in> set (inProgress s)" and "uniqueKey r \<notin> set (reclaimed s)"
  shows "\<exists>s'. reclaimRequest r s = (Inr (), s') \<and>
           s' = s\<lparr> reclaimed := reclaimed s' \<rparr> \<and>
           set (reclaimed s') = insert (uniqueKey r) (set (reclaimed s)) \<and>
           nextIndex s' = nextIndex s \<and> inProgress s' = inProgress s \<and>
           isStatePersisted s' = isStatePersisted s \<and>
           (\<exists>st. getState s = (Inr st, s) \<and> getState s' = (Inr st, s')) \<and>
           fst (onPersistState stored s') = fst (onPersistState stored s) \<and>
           (isStatePersisted s \<longrightarrow> onPersistState stored s' = (None, s'))"
proof -
  from reachable_consistent[OF assms(1)] have c: "consistent s" and i: "isInitialized s" by blast+
  let ?s' = "s\<lparr> reclaimed := reclaimed s @ [uniqueKey r] \<rparr>"
  have r: "reclaimRequest r s = (Inr (), ?s')" by (rule reclaimRequest_Inr[OF c i assms(2,3)])
  from reachable_reclaim[OF assms(1), of r] r have "reachable g ?s'" by simp
  from reachable_consistent[OF this] have c': "consistent ?s'" and i': "isInitialized ?s'" by blast+
  have g: "\<exists>st. getState s = (Inr st, s) \<and> getState ?s' = (Inr st, ?s')"
    using getState_consistent[OF c i] getState_consistent[OF c' i'] by simp
  then obtain st where st: "getState s = (Inr st, s)" "getState ?s' = (Inr st, ?s')" by blast
  have p: "fst (onPersistState stored ?s') = fst (onPersistState stored s)"
    using st by (simp add: onPersistState_def)
  have q: "isStatePersisted s \<longrightarrow> onPersistState stored ?s' = (None, ?s')"
    by (simp add: onPersistState_def)
  from r g p q show ?thesis by (intro exI[of _ ?s']) simp
qed

theorem reclaimRequest_changes_only_reclaimed_witness:
  "reachable firstOwnKey aPersisted \<and>
   uniqueKey (item ''a'') \<in> set (inProgress aPersisted) \<and>
   uniqueKey (item ''a'') \<notin> set (reclaimed aPersisted) \<and>
   isStatePersisted aPersisted \<and>
   reclaimRequest (item ''a'') aPersisted = (Inr (), aPersisted\<lparr> reclaimed := [''a''] \<rparr>) \<and>
   getState (aPersisted\<lparr> reclaimed := [''a''] \<rparr>)
     = (Inr \<lparr> state_nextIndex = Number (Fin 1), state_nextUniqueKey = Some ''b'',
               state_inProgress = [''a''] \<rparr>, aPersisted\<lparr> reclaimed := [''a''] \<rparr>) \<and>
   fst (getState (aPersisted\<lparr> reclaimed := [''a''] \<rparr>)) = fst (getState aPersisted) \<and>
   onPersistState True (aPersisted\<lparr> reclaimed := [''a''] \<rparr>) = (None, aPersisted\<lparr> reclaimed := [''a''] \<rparr>)"
proof -
  have k: "uniqueKey (item ''a'') \<in> set (inProgress aPersisted)"
    "uniqueKey (item ''a'') \<notin> set (reclaimed aPersisted)" "isStatePersisted aPersisted"
    by (simp_all add: aPersisted_eq abcQueue_eq item_def)
  have r: "reclaimRequest (item ''a'') aPersisted = (Inr (), aPersisted\<lparr> reclaimed := [''a''] \<rparr>)"
    by (simp add: aPersisted_eq abcQueue_eq reclaimRequest_def ensureIsInitialized_def
        ensureUniqueKeyValid_def ensureInProgressAndNotReclaimed_def dictTruthy_def
        objectPrototypeKeys_def dictSet_def item_def)
  have g: "getState (aPersisted\<lparr> reclaimed := [''a''] \<rparr>)
     = (Inr \<lparr> state_nextIndex = Number (Fin 1), state_nextUniqueKey = Some ''b'',
               state_inProgress = [''a''] \<rparr>, aPersisted\<lparr> reclaimed := [''a''] \<rparr>)"
    by (simp add: aPersisted_eq abcQueue_eq getState_def ensureIsInitialized_def js_num_def
          js_index_def item_def)
  from reclaimRequest_changes_only_reclaimed[OF aPersisted_reachable k(1,2), of True] r k(3) g
  show ?thesis using aPersisted_reachable k by auto
qed

text \<open>
  Claim C6. In a reachable state, \<open>markRequestHandled\<close> and \<open>reclaimRequest\<close> throw,
  leaving the state as it was, when the key is not in \<open>inProgress\<close> or is in
  \<open>reclaimed\<close>, and succeed otherwise. On success \<open>markRequestHandled\<close> removes the
  key from \<open>inProgress\<close>, \<open>reclaimRequest\<close> adds it to \<open>reclaimed\<close>, and a second
  \<open>reclaimRequest\<close> for the same key right after throws.
\<close>

theorem markRequestHandled_reclaimRequest_checks:
  assumes "reachable g s"
  shows "(uniqueKey r \<notin> set (inProgress s) \<or> uniqueKey r \<in> set (reclaimed s) \<longrightarrow>
            (\<exists>e. markRequestHandled r s = (Inl e, s)) \<and> (\<exists>e. reclaimRequest r s = (Inl e, s))) \<and>
         (uniqueKey r \<in> set (inProgress s) \<and> uniqueKey r \<notin> set (reclaimed s) \<longrightarrow>
            (\<exists>s'. markRequestHandled r s = (Inr (), s') \<and>
                set (inProgress s') = set (inProgress s) - {uniqueKey r} \<and>
                reclaimed s' = reclaimed s) \<and>
            (\<exists>s'. reclaimRequest r s = (Inr (), s') \<and>
                set (reclaimed s') = insert (uniqueKey r) (set (reclaimed s)) \<and>
                inProgress s' = inProgress s \<and>
                reclaimRequest r s' = (Inl AlreadyReclaimed, s')))"
proof (intro conjI impI)
  from reachable_consistent[OF assms] have c: "consistent s" and i: "isInitialized s" by blast+
  {
    assume "uniqueKey r \<notin> set (inProgress s) \<or> uniqueKey r \<in> set (reclaimed s)"
    from ensure_Inl[OF c this]
    show "\<exists>e. markRequestHandled r s = (Inl e, s)"
      by (auto simp: markRequestHandled_def ensureUniqueKeyValid_def)
  next
    assume "uniqueKey r \<notin> set (inProgress s) \<or> uniqueKey r \<in> set (reclaimed s)"
    from ensure_Inl[OF c this]
    show "\<exists>e. reclaimRequest r s = (Inl e, s)"
      by (auto simp: reclaimRequest_def ensureUniqueKeyValid_def)
  next
    assume a: "uniqueKey r \<in> set (inProgress s) \<and> uniqueKey r \<notin> set (reclaimed s)"
    then have "markRequestHandled r s =
       (Inr (), s\<lparr> inProgress := dictDelete (uniqueKey r) (inProgress s), isStatePersisted := False \<rparr>)"
      using markRequestHandled_Inr[OF c i] by blast
    then show "\<exists>s'. markRequestHandled r s = (Inr (), s') \<and>
                set (inProgress s') = set (inProgress s) - {uniqueKey r} \<and>
                reclaimed s' = reclaimed s"
      by simp
  next
    assume a: "uniqueKey r \<in> set (inProgress s) \<and> uniqueKey r \<notin> set (reclaimed s)"
    let ?s' = "s\<lparr> reclaimed := reclaimed s @ [uniqueKey r] \<rparr>"
    from a have r: "reclaimRequest r s = (Inr (), ?s')"
      using reclaimRequest_Inr[OF c i] by blast
    from consistent_inProgress_key[OF c] a have "uniqueKey r \<noteq> []" by blast
    with a have "reclaimRequest r ?s' = (Inl AlreadyReclaimed, ?s')"
      by (simp add: reclaimRequest_def ensureUniqueKeyValid_def ensureInProgressAndNotReclaimed_def
            dictTruthy_def)
    with r show "\<exists>s'. reclaimRequest r s = (Inr (), s') \<and>
                set (reclaimed s') = insert (uniqueKey r) (set (reclaimed s)) \<and>
                inProgress s' = inProgress s \<and>
                reclaimRequest r s' = (Inl AlreadyReclaimed, s')"
      by simp
  }
qed

theorem markRequestHandled_reclaimRequest_checks_witness:
  "reachable firstOwnKey aFetched \<and>
   uniqueKey (item ''b'') \<notin> set (inProgress aFetched) \<and>
   markRequestHandled (item ''b'') aFetched = (Inl NotInProgress, aFetched) \<and>
   reclaimRequest (item ''b'') aFetched = (Inl NotInProgress, aFetched) \<and>
   uniqueKey (item ''a'') \<in> set (inProgress aFetched) \<and>
   uniqueKey (item ''a'') \<notin> set (reclaimed aFetched) \<and>
   markRequestHandled (item ''a'') aFetched
     = (Inr (), aFetched\<lparr> inProgress := [], isStatePersisted := False \<rparr>) \<and>
   reclaimRequest (item ''a'') aFetched = (Inr (), aReclaimed) \<and>
   uniqueKey (item ''a'') \<in> set (reclaimed aReclaimed) \<and>
   reclaimRequest (item ''a'') aReclaimed = (Inl AlreadyReclaimed, aReclaimed) \<and>
   markRequestHandled (item ''a'') aReclaimed = (Inl AlreadyReclaimed, aReclaimed)"
proof -
  have mb: "markRequestHandled (item ''b'') aFetched = (Inl NotInProgress, aFetched)"
    by (simp add: aFetched_eq abcQueue_eq markRequestHandled_def
        ensureUniqueKeyValid_def ensureInProgressAndNotReclaimed_def dictTruthy_def
        objectPrototypeKeys_def item_def)
  have rb: "reclaimRequest (item ''b'') aFetched = (Inl NotInProgress, aFetched)"
    by (simp add: aFetched_eq abcQueue_eq reclaimRequest_def
        ensureUniqueKeyValid_def ensureInProgressAndNotReclaimed_def dictTruthy_def
        objectPrototypeKeys_def item_def)
  have ma: "markRequestHandled (item ''a'') aFetched
     = (Inr (), aFetched\<lparr> inProgress := [], isStatePersisted := False \<rparr>)"
    by (simp add: aFetched_eq abcQueue_eq markRequestHandled_def ensureIsInitialized_def
        ensureUniqueKeyValid_def ensureInProgressAndNotReclaimed_def dictTruthy_def
        objectPrototypeKeys_def dictDelete_def item_def)
  have ra: "reclaimRequest (item ''a'') aFetched = (Inr (), aReclaimed)"
    by (simp add: aReclaimed_def aFetched_eq abcQueue_eq reclaimRequest_def ensureIsInitialized_def
        ensureUniqueKeyValid_def ensureInProgressAndNotReclaimed_def dictTruthy_def
        objectPrototypeKeys_def item_def)
  have ka: "uniqueKey (item ''a'') \<in> set (inProgress aFetched)"
    "uniqueKey (item ''a'') \<notin> set (reclaimed aFetched)"
    "uniqueKey (item ''b'') \<notin> set (inProgress aFetched)"
    "uniqueKey (item ''a'') \<in> set (reclaimed aReclaimed)"
    by (simp_all add: aReclaimed_eq aFetched_eq abcQueue_eq item_def)
  from markRequestHandled_reclaimRequest_checks[OF aFetched_reachable, of "item ''a''"] ka ra
  have rr: "reclaimRequest (item ''a'') aReclaimed = (Inl AlreadyReclaimed, aReclaimed)"
    by auto
  from markRequestHandled_reclaimRequest_checks[OF aReclaimed_reachable, of "item ''a''"] ka
  obtain e where "markRequestHandled (item ''a'') aReclaimed = (Inl e, aReclaimed)" by auto
  moreover have "fst (markRequestHandled (item ''a'') aReclaimed) = Inl AlreadyReclaimed"
    by (simp add: aReclaimed_eq abcQueue_eq markRequestHandled_def
        ensureUniqueKeyValid_def ensureInProgressAndNotReclaimed_def dictTruthy_def
        objectPrototypeKeys_def item_def)
  ultimately have mr: "markRequestHandled (item ''a'') aReclaimed = (Inl AlreadyReclaimed, aReclaimed)"
    by simp
  from aFetched_reachable mb rb ma ra ka rr mr show ?thesis by simp
qed

section \<open>Fetching\<close>

lemma fetchNextRequest_reclaimed:
  assumes g: "getFirstKeyContract g" and c: "consistent s" and i: "isInitialized s"
    and ne: "reclaimed s \<noteq> []"
  shows "\<exists>k n. g (reclaimed s) = Some k \<and> k \<in> set (reclaimed s) \<and>
           map_of (uniqueKeyToIndex s) k = Some n \<and> n < length (requests s) \<and>
           uniqueKey (requests s ! n) = k \<and>
           fetchNextRequest g s = (Inr (Request (requests s ! n)), s\<lparr> reclaimed := dictDelete k (reclaimed s) \<rparr>)"
proof -
  from contract_member[OF g ne] obtain k where k: "k \<in> set (reclaimed s)" "g (reclaimed s) = Some k"
    by blast
  with consistent_reclaimed[OF c] have "k \<in> set (inProgress s)" by blast
  from consistent_inProgress_key[OF c this] obtain n where
    n: "map_of (uniqueKeyToIndex s) k = Some n" "n < length (requests s)"
       "uniqueKey (requests s ! n) = k" "k \<noteq> []" by blast
  with k i have "fetchNextRequest g s
      = (Inr (Request (requests s ! n)), s\<lparr> reclaimed := dictDelete k (reclaimed s) \<rparr>)"
    by (simp add: fetchNextRequest_def ensureIsInitialized_def keyTruthy_def)
  with k n show ?thesis by blast
qed

lemma fetchNextRequest_cursor:
  assumes g: "getFirstKeyContract g" and c: "consistent s" and i: "isInitialized s"
    and e: "reclaimed s = []" and n: "nextIndex s = js_num n" "n < length (requests s)"
  shows "fetchNextRequest g s =
           (Inr (Request (requests s ! n)),
            s\<lparr> inProgress := dictSet (uniqueKey (requests s ! n)) (inProgress s),
               nextIndex := js_num (Suc n), isStatePersisted := False \<rparr>)"
  using contract_empty[OF g] i e n
  by (simp add: fetchNextRequest_def ensureIsInitialized_def keyTruthy_def)

lemma fetchNextRequest_none:
  assumes g: "getFirstKeyContract g" and i: "isInitialized s"
    and e: "reclaimed s = []" and n: "\<not> js_lt (nextIndex s) (js_num (length (requests s)))"
  shows "fetchNextRequest g s = (Inr Null, s)"
  using contract_empty[OF g] i e n
  by (simp add: fetchNextRequest_def ensureIsInitialized_def keyTruthy_def)

lemma set_dictSet_valid:
  "k \<notin> set objectPrototypeKeys \<Longrightarrow> set (dictSet k d) = insert k (set d)"
  by (auto simp: dictSet_def objectPrototypeKeys_def)

lemma reachable_fetchMany: "reachable g s \<Longrightarrow> reachable g (snd (fetchMany g n s))"
proof (induction n arbitrary: s)
  case 0
  then show ?case by simp
next
  case (Suc n)
  from Suc.IH[OF reachable_fetch[OF Suc.prems]] show ?case
    by (simp add: case_prod_beta)
qed

lemma allFetched_eq:
  "allFetched = abcQueue\<lparr> inProgress := [''a'', ''b'', ''c''], nextIndex := Fin 3, isStatePersisted := False \<rparr>"
  by (simp add: allFetched_def abcQueue_eq numeral_3_eq_3 fetchNextRequest_def ensureIsInitialized_def
        firstOwnKey_def keyTruthy_def js_num_def js_index_def dictSet_def item_def)

lemma allFetched_reachable: "reachable firstOwnKey allFetched"
  unfolding allFetched_def by (rule reachable_fetchMany[OF abcQueue_reachable])

text \<open>
  Claim C1. In every reachable state \<open>fetchNextRequest()\<close> follows the priority order.
  If \<open>reclaimed\<close> is not empty, it returns the request of some key of \<open>reclaimed\<close> and
  deletes that key from \<open>reclaimed\<close>; \<open>nextIndex\<close> and \<open>inProgress\<close> stay as they were.
  Otherwise, if \<open>nextIndex < requests.length\<close>, it returns \<open>requests[nextIndex]\<close>, adds
  its key to \<open>inProgress\<close> and increments \<open>nextIndex\<close>. Otherwise it returns \<open>null\<close>
  and changes nothing.
\<close>

theorem fetchNextRequest_priority:
  assumes "getFirstKeyContract g" and "reachable g s"
  shows "(reclaimed s \<noteq> [] \<longrightarrow>
            (\<exists>k r s'. fetchNextRequest g s = (Inr (Request r), s') \<and>
               k \<in> set (reclaimed s) \<and> uniqueKey r = k \<and> r \<in> set (requests s) \<and>
               s' = s\<lparr> reclaimed := dictDelete k (reclaimed s) \<rparr> \<and>
               set (reclaimed s') = set (reclaimed s) - {k} \<and>
               nextIndex s' = nextIndex s \<and> inProgress s' = inProgress s)) \<and>
         (reclaimed s = [] \<and> js_lt (nextIndex s) (js_num (length (requests s))) \<longrightarrow>
            (\<exists>n s'. nextIndex s = js_num n \<and> n < length (requests s) \<and>
               fetchNextRequest g s = (Inr (Request (requests s ! n)), s') \<and>
               s' = s\<lparr> inProgress := dictSet (uniqueKey (requests s ! n)) (inProgress s),
                       nextIndex := js_num (Suc n), isStatePersisted := False \<rparr> \<and>
               set (inProgress s') = insert (uniqueKey (requests s ! n)) (set (inProgress s)) \<and>
               nextIndex s' = js_num (Suc n) \<and> reclaimed s' = [])) \<and>
         (reclaimed s = [] \<and> \<not> js_lt (nextIndex s) (js_num (length (requests s))) \<longrightarrow>
            fetchNextRequest g s = (Inr Null, s))"
proof (intro conjI impI)
  from reachable_consistent[OF assms(2)] have c: "consistent s" and i: "isInitialized s" by blast+
  {
    assume "reclaimed s \<noteq> []"
    from fetchNextRequest_reclaimed[OF assms(1) c i this] obtain k n where
      kn: "k \<in> set (reclaimed s)" "n < length (requests s)" "uniqueKey (requests s ! n) = k"
      "fetchNextRequest g s = (Inr (Request (requests s ! n)), s\<lparr> reclaimed := dictDelete k (reclaimed s) \<rparr>)"
      by blast
    then show "\<exists>k r s'. fetchNextRequest g s = (Inr (Request r), s') \<and>
               k \<in> set (reclaimed s) \<and> uniqueKey r = k \<and> r \<in> set (requests s) \<and>
               s' = s\<lparr> reclaimed := dictDelete k (reclaimed s) \<rparr> \<and>
               set (reclaimed s') = set (reclaimed s) - {k} \<and>
               nextIndex s' = nextIndex s \<and> inProgress s' = inProgress s"
      by (intro exI[of _ k] exI[of _ "requests s ! n"]
            exI[of _ "s\<lparr> reclaimed := dictDelete k (reclaimed s) \<rparr>"]) simp
  next
    assume a: "reclaimed s = [] \<and> js_lt (nextIndex s) (js_num (length (requests s)))"
    with consistent_cursor[OF c] obtain n where n: "n < length (requests s)" "nextIndex s = js_num n"
      by blast
    from c n have "map_of (uniqueKeyToIndex s) (uniqueKey (requests s ! n)) = Some n"
      by (simp add: consistent_def indexed_def)
    with c have "uniqueKey (requests s ! n) \<notin> set objectPrototypeKeys"
      unfolding consistent_def indexed_def by blast
    from set_dictSet_valid[OF this]
    have d: "set (dictSet (uniqueKey (requests s ! n)) (inProgress s))
             = insert (uniqueKey (requests s ! n)) (set (inProgress s))" .
    from a fetchNextRequest_cursor[OF assms(1) c i _ n(2,1)] n d
    show "\<exists>n s'. nextIndex s = js_num n \<and> n < length (requests s) \<and>
               fetchNextRequest g s = (Inr (Request (requests s ! n)), s') \<and>
               s' = s\<lparr> inProgress := dictSet (uniqueKey (requests s ! n)) (inProgress s),
                       nextIndex := js_num (Suc n), isStatePersisted := False \<rparr> \<and>
               set (inProgress s') = insert (uniqueKey (requests s ! n)) (set (inProgress s)) \<and>
               nextIndex s' = js_num (Suc n) \<and> reclaimed s' = []"
      by (intro exI[of _ n]) simp
  next
    assume "reclaimed s = [] \<and> \<not> js_lt (nextIndex s) (js_num (length (requests s)))"
    then show "fetchNextRequest g s = (Inr Null, s)"
      using fetchNextRequest_none[OF assms(1) i] by blast
  }
qed

theorem fetchNextRequest_priority_witness:
  "getFirstKeyContract firstOwnKey \<and>
   reachable firstOwnKey aReclaimed \<and> reclaimed aReclaimed \<noteq> [] \<and>
   fetchNextRequest firstOwnKey aReclaimed = (Inr (Request (item ''a'')), aFetched) \<and>
   nextIndex aFetched = nextIndex aReclaimed \<and>
   reachable firstOwnKey abcQueue \<and> reclaimed abcQueue = [] \<and>
   js_lt (nextIndex abcQueue) (js_num (length (requests abcQueue))) \<and>
   fetchNextRequest firstOwnKey abcQueue = (Inr (Request (item ''a'')), aFetched) \<and>
   nextIndex abcQueue = js_num 0 \<and> nextIndex aFetched = js_num 1 \<and> inProgress aFetched = [''a''] \<and>
   reachable firstOwnKey allFetched \<and> reclaimed allFetched = [] \<and>
   \<not> js_lt (nextIndex allFetched) (js_num (length (requests allFetched))) \<and>
   fetchNextRequest firstOwnKey allFetched = (Inr Null, allFetched)"
proof -
  have r: "reclaimed aReclaimed \<noteq> []" "nextIndex aFetched = nextIndex aReclaimed"
    "reclaimed abcQueue = []" "js_lt (nextIndex abcQueue) (js_num (length (requests abcQueue)))"
    "nextIndex abcQueue = js_num 0" "nextIndex aFetched = js_num 1" "inProgress aFetched = [''a'']"
    "reclaimed allFetched = []"
    "\<not> js_lt (nextIndex allFetched) (js_num (length (requests allFetched)))"
    by (simp_all add: aReclaimed_eq aFetched_eq allFetched_eq abcQueue_eq js_num_def)
  have f1: "fetchNextRequest firstOwnKey aReclaimed = (Inr (Request (item ''a'')), aFetched)"
    by (simp add: aReclaimed_eq aFetched_eq abcQueue_eq fetchNextRequest_def ensureIsInitialized_def
        firstOwnKey_def keyTruthy_def js_num_def js_index_def dictDelete_def item_def Let_def)
  have f2: "fetchNextRequest firstOwnKey abcQueue = (Inr (Request (item ''a'')), aFetched)"
    by (simp add: aFetched_eq abcQueue_eq fetchNextRequest_def ensureIsInitialized_def
        firstOwnKey_def keyTruthy_def js_num_def js_index_def dictSet_def item_def)
  from fetchNextRequest_priority[OF firstOwnKey_contract allFetched_reachable] r
  have f3: "fetchNextRequest firstOwnKey allFetched = (Inr Null, allFetched)" by blast
  from firstOwnKey_contract aReclaimed_reachable abcQueue_reachable allFetched_reachable r f1 f2 f3
  show ?thesis by simp
qed

section \<open>The scenario of three requests\<close>

lemma abcQueue_initialize_any: "initialize (newRequestList getValue abcOptions) = (Inr (), abcQueue)"
  by (simp add: abcQueue_eq initialize_def newRequestList_def abcOptions_def addRequest_def
        ensureUniqueKeyValid_def indexUndefined_def objectPrototypeKeys_def item_def)

text \<open>
  Claim C2. From the list initialized with the sources of keys \<open>a\<close>, \<open>b\<close>, \<open>c\<close> and
  no state object, the calls fetchNext, fetchNext, reclaim(a), fetchNext, markHandled(a),
  fetchNext, fetchNext, isEmpty, isFinished, markHandled(b), markHandled(c), isFinished
  yield \<open>a\<close> (\<open>nextIndex\<close> 1), \<open>b\<close> (\<open>nextIndex\<close> 2), success, \<open>a\<close>, success,
  \<open>c\<close> (\<open>nextIndex\<close> 3), \<open>null\<close>, \<open>true\<close>, \<open>false\<close>, success, success, \<open>true\<close>.
\<close>

theorem abc_scenario:
  assumes "getFirstKeyContract g"
  shows "\<exists>s0 s1 s2 s3 s4 s5 s6 s7 s8.
     initialize (newRequestList getValue abcOptions) = (Inr (), s0) \<and>
     fetchNextRequest g s0 = (Inr (Request (item ''a'')), s1) \<and> nextIndex s1 = Fin 1 \<and>
     fetchNextRequest g s1 = (Inr (Request (item ''b'')), s2) \<and> nextIndex s2 = Fin 2 \<and>
     reclaimRequest (item ''a'') s2 = (Inr (), s3) \<and>
     fetchNextRequest g s3 = (Inr (Request (item ''a'')), s4) \<and> nextIndex s4 = Fin 2 \<and>
     markRequestHandled (item ''a'') s4 = (Inr (), s5) \<and>
     fetchNextRequest g s5 = (Inr (Request (item ''c'')), s6) \<and> nextIndex s6 = Fin 3 \<and>
     fetchNextRequest g s6 = (Inr Null, s6) \<and>
     isEmpty g s6 = (Inr True, s6) \<and>
     isFinished g s6 = (Inr False, s6) \<and>
     markRequestHandled (item ''b'') s6 = (Inr (), s7) \<and>
     markRequestHandled (item ''c'') s7 = (Inr (), s8) \<and>
     isFinished g s8 = (Inr True, s8)"
proof -
  let ?q = "\<lambda>ip n rc. abcQueue\<lparr> inProgress := ip, nextIndex := Fin n, isStatePersisted := False, reclaimed := rc \<rparr>"
  have g0: "g [] = None" by (rule contract_empty[OF assms])
  from contract_member[OF assms, of "[''a'']"] have ga: "g [''a''] = Some ''a''" by simp
  from contract_member[OF assms, of "[''b'', ''c'']"] have gbc: "keyTruthy (g [''b'', ''c''])"
    by (auto simp: keyTruthy_def)
  have i: "initialize (newRequestList getValue abcOptions) = (Inr (), abcQueue)"
    by (rule abcQueue_initialize_any)
  have f1: "fetchNextRequest g abcQueue = (Inr (Request (item ''a'')), ?q [''a''] 1 [])"
    using g0 by (simp add: abcQueue_eq fetchNextRequest_def ensureIsInitialized_def
        keyTruthy_def js_num_def js_index_def dictSet_def item_def)
  have f2: "fetchNextRequest g (?q [''a''] 1 []) = (Inr (Request (item ''b'')), ?q [''a'', ''b''] 2 [])"
    using g0 by (simp add: abcQueue_eq fetchNextRequest_def ensureIsInitialized_def
        keyTruthy_def js_num_def js_index_def dictSet_def item_def)
  have r3: "reclaimRequest (item ''a'') (?q [''a'', ''b''] 2 []) = (Inr (), ?q [''a'', ''b''] 2 [''a''])"
    by (simp add: abcQueue_eq reclaimRequest_def ensureIsInitialized_def
        ensureUniqueKeyValid_def ensureInProgressAndNotReclaimed_def dictTruthy_def
        objectPrototypeKeys_def dictSet_def item_def)
  have f4: "fetchNextRequest g (?q [''a'', ''b''] 2 [''a'']) = (Inr (Request (item ''a'')), ?q [''a'', ''b''] 2 [])"
    using ga by (simp add: abcQueue_eq fetchNextRequest_def ensureIsInitialized_def
        keyTruthy_def js_num_def js_index_def dictDelete_def item_def Let_def)
  have m5: "markRequestHandled (item ''a'') (?q [''a'', ''b''] 2 []) = (Inr (), ?q [''b''] 2 [])"
    by (simp add: abcQueue_eq markRequestHandled_def ensureIsInitialized_def
        ensureUniqueKeyValid_def ensureInProgressAndNotReclaimed_def dictTruthy_def
        objectPrototypeKeys_def dictDelete_def item_def)
  have f6: "fetchNextRequest g (?q [''b''] 2 []) = (Inr (Request (item ''c'')), ?q [''b'', ''c''] 3 [])"
    using g0 by (simp add: abcQueue_eq fetchNextRequest_def ensureIsInitialized_def
        keyTruthy_def js_num_def js_index_def dictSet_def item_def)
  have f7: "fetchNextRequest g (?q [''b'', ''c''] 3 []) = (Inr Null, ?q [''b'', ''c''] 3 [])"
    using g0 by (simp add: abcQueue_eq fetchNextRequest_def ensureIsInitialized_def
        keyTruthy_def js_num_def)
  have e8: "isEmpty g (?q [''b'', ''c''] 3 []) = (Inr True, ?q [''b'', ''c''] 3 [])"
    using g0 by (simp add: abcQueue_eq isEmpty_def ensureIsInitialized_def
        keyTruthy_def js_num_def js_ge_def)
  have n9: "isFinished g (?q [''b'', ''c''] 3 []) = (Inr False, ?q [''b'', ''c''] 3 [])"
    using gbc by (simp add: abcQueue_eq isFinished_def ensureIsInitialized_def)
  have m10: "markRequestHandled (item ''b'') (?q [''b'', ''c''] 3 []) = (Inr (), ?q [''c''] 3 [])"
    by (simp add: abcQueue_eq markRequestHandled_def ensureIsInitialized_def
        ensureUniqueKeyValid_def ensureInProgressAndNotReclaimed_def dictTruthy_def
        objectPrototypeKeys_def dictDelete_def item_def)
  have m11: "markRequestHandled (item ''c'') (?q [''c''] 3 []) = (Inr (), ?q [] 3 [])"
    by (simp add: abcQueue_eq markRequestHandled_def ensureIsInitialized_def
        ensureUniqueKeyValid_def ensureInProgressAndNotReclaimed_def dictTruthy_def
        objectPrototypeKeys_def dictDelete_def item_def)
  have f12: "isFinished g (?q [] 3 []) = (Inr True, ?q [] 3 [])"
    using g0 by (simp add: abcQueue_eq isFinished_def ensureIsInitialized_def
        keyTruthy_def js_num_def js_ge_def)
  have n: "nextIndex (?q [''a''] 1 []) = Fin 1" "nextIndex (?q [''a'', ''b''] 2 []) = Fin 2"
    "nextIndex (?q [''b'', ''c''] 3 []) = Fin 3"
    by simp_all
  from i f1 f2 r3 f4 m5 f6 f7 e8 n9 m10 m11 f12 n show ?thesis by blast
qed

theorem abc_scenario_witness:
  "getFirstKeyContract firstOwnKey \<and>
   (\<exists>s0 s1 s2 s3 s4 s5 s6 s7 s8.
     initialize (newRequestList noStore abcOptions) = (Inr (), s0) \<and>
     fetchNextRequest firstOwnKey s0 = (Inr (Request (item ''a'')), s1) \<and> nextIndex s1 = Fin 1 \<and>
     fetchNextRequest firstOwnKey s1 = (Inr (Request (item ''b'')), s2) \<and> nextIndex s2 = Fin 2 \<and>
     reclaimRequest (item ''a'') s2 = (Inr (), s3) \<and>
     fetchNextRequest firstOwnKey s3 = (Inr (Request (item ''a'')), s4) \<and> nextIndex s4 = Fin 2 \<and>
     markRequestHandled (item ''a'') s4 = (Inr (), s5) \<and>
     fetchNextRequest firstOwnKey s5 = (Inr (Request (item ''c'')), s6) \<and> nextIndex s6 = Fin 3 \<and>
     fetchNextRequest firstOwnKey s6 = (Inr Null, s6) \<and>
     isEmpty firstOwnKey s6 = (Inr True, s6) \<and>
     isFinished firstOwnKey s6 = (Inr False, s6) \<and>
     markRequestHandled (item ''b'') s6 = (Inr (), s7) \<and>
     markRequestHandled (item ''c'') s7 = (Inr (), s8) \<and>
     isFinished firstOwnKey s8 = (Inr True, s8))"
  using firstOwnKey_contract abc_scenario[OF firstOwnKey_contract, of noStore] by (rule conjI)

section \<open>Loading: duplicate keys\<close>

lemma indexed_distinct:
  assumes "indexed s"
  shows "distinct (map uniqueKey (requests s))"
  unfolding distinct_conv_nth
proof (intro allI impI)
  fix i j
  assume i: "i < length (map uniqueKey (requests s))" and j: "j < length (map uniqueKey (requests s))"
    and ne: "i \<noteq> j"
  from assms i have "map_of (uniqueKeyToIndex s) (uniqueKey (requests s ! i)) = Some i"
    unfolding indexed_def by simp
  moreover from assms j have "map_of (uniqueKeyToIndex s) (uniqueKey (requests s ! j)) = Some j"
    unfolding indexed_def by simp
  ultimately have "uniqueKey (requests s ! i) \<noteq> uniqueKey (requests s ! j)"
    using ne by auto
  with i j show "map uniqueKey (requests s) ! i \<noteq> map uniqueKey (requests s) ! j" by simp
qed

lemma indexed_key_iff:
  assumes "indexed s"
  shows "map_of (uniqueKeyToIndex s) k \<noteq> None \<longleftrightarrow> k \<in> uniqueKey ` set (requests s)"
proof
  assume "map_of (uniqueKeyToIndex s) k \<noteq> None"
  then obtain i where "map_of (uniqueKeyToIndex s) k = Some i" by blast
  with assms have "i < length (requests s)" "uniqueKey (requests s ! i) = k"
    unfolding indexed_def by blast+
  then show "k \<in> uniqueKey ` set (requests s)" by (metis imageI nth_mem)
next
  assume "k \<in> uniqueKey ` set (requests s)"
  then obtain i where i: "i < length (requests s)" "uniqueKey (requests s ! i) = k"
    by (auto simp: in_set_conv_nth)
  from assms i(1) have "map_of (uniqueKeyToIndex s) (uniqueKey (requests s ! i)) = Some i"
    unfolding indexed_def by blast
  with i(2) show "map_of (uniqueKeyToIndex s) k \<noteq> None" by simp
qed

lemma find_app_Some: "find P xs = Some x \<Longrightarrow> find P (xs @ ys) = Some x"
  by (induction xs) (auto split: if_splits)

lemma find_app_None: "find P xs = None \<Longrightarrow> find P (xs @ ys) = find P ys"
  by (induction xs) (auto split: if_splits)

lemma addRequestsFromUrl_Inr:
  assumes "addRequestsFromUrl f s = (Inr u, s')"
  shows "\<exists>urls s2 lg. f = Some urls \<and> addRequests urls s = (Inr (), s2) \<and> s' = s2\<lparr> logged := lg \<rparr>"
proof (cases f)
  case None
  with assms show ?thesis by (simp add: addRequestsFromUrl_def)
next
  case (Some urls)
  show ?thesis
  proof (cases urls)
    case Nil
    with Some assms have "s' = s\<lparr> logged := logged s @ [ListEmpty] \<rparr>"
      by (simp add: addRequestsFromUrl_def)
    with Some Nil show ?thesis
      by (intro exI[of _ "[]"] exI[of _ s] exI[of _ "logged s @ [ListEmpty]"]) simp
  next
    case (Cons x ys)
    obtain r1 s1 where a: "addRequests urls s = (r1, s1)" by (cases "addRequests urls s")
    show ?thesis
    proof (cases r1)
      case (Inl e)
      with assms Some Cons a show ?thesis by (simp add: addRequestsFromUrl_def)
    next
      case (Inr v)
      with assms Some Cons a have "s' = s1\<lparr> logged := logged s1 @
          [ListFetched (length urls) (length (requests s1) - length (requests s))
             (length urls - (length (requests s1) - length (requests s)))] \<rparr>"
        by (simp add: addRequestsFromUrl_def Let_def)
      with a Inr Some show ?thesis
        by (intro exI[of _ urls] exI[of _ s1] exI[of _ "logged s1 @
          [ListFetched (length urls) (length (requests s1) - length (requests s))
             (length urls - (length (requests s1) - length (requests s)))]"]) simp
    qed
  qed
qed

text \<open>What holds while the items \<open>xs\<close> have been handed to \<open>_addRequest\<close>.\<close>

lemma addRequest_first:
  assumes ix: "indexed s"
    and first: "\<forall>r\<in>set (requests s). find (\<lambda>x. uniqueKey x = uniqueKey r) xs = Some r"
    and cover: "\<forall>x\<in>set xs. uniqueKey x \<in> uniqueKey ` set (requests s) \<or> uniqueKey x \<in> set objectPrototypeKeys"
    and add: "addRequest r s = (Inr u, s')"
  shows "(\<forall>q\<in>set (requests s'). find (\<lambda>x. uniqueKey x = uniqueKey q) (xs @ [r]) = Some q) \<and>
         (\<forall>x\<in>set (xs @ [r]). uniqueKey x \<in> uniqueKey ` set (requests s') \<or> uniqueKey x \<in> set objectPrototypeKeys)"
proof (cases "indexUndefined (uniqueKeyToIndex s) (uniqueKey r)")
  case False
  with add have s': "s' = s" by (auto simp: addRequest_def split: sum.splits)
  from False indexed_key_iff[OF ix, of "uniqueKey r"]
  have r: "uniqueKey r \<in> uniqueKey ` set (requests s) \<or> uniqueKey r \<in> set objectPrototypeKeys"
    by (auto simp: indexUndefined_def)
  show ?thesis unfolding s'
  proof (intro conjI ballI)
    fix q assume "q \<in> set (requests s)"
    with first have "find (\<lambda>x. uniqueKey x = uniqueKey q) xs = Some q" by blast
    then show "find (\<lambda>x. uniqueKey x = uniqueKey q) (xs @ [r]) = Some q" by (rule find_app_Some)
  next
    fix x assume "x \<in> set (xs @ [r])"
    then have "x \<in> set xs \<or> x = r" by auto
    with cover r show "uniqueKey x \<in> uniqueKey ` set (requests s) \<or> uniqueKey x \<in> set objectPrototypeKeys"
      by blast
  qed
next
  case True
  with add have rs: "requests s' = requests s @ [r]"
    by (auto simp: addRequest_def split: sum.splits)
  from True indexed_key_iff[OF ix, of "uniqueKey r"]
  have new: "uniqueKey r \<notin> uniqueKey ` set (requests s)" "uniqueKey r \<notin> set objectPrototypeKeys"
    by (auto simp: indexUndefined_def)
  have "uniqueKey x \<noteq> uniqueKey r" if "x \<in> set xs" for x
  proof
    assume "uniqueKey x = uniqueKey r"
    moreover from cover that
    have "uniqueKey x \<in> uniqueKey ` set (requests s) \<or> uniqueKey x \<in> set objectPrototypeKeys" by blast
    ultimately show False using new by simp
  qed
  then have none: "find (\<lambda>x. uniqueKey x = uniqueKey r) xs = None"
    by (simp add: find_None_iff)
  show ?thesis
  proof (intro conjI ballI)
    fix q assume "q \<in> set (requests s')"
    with rs have "q \<in> set (requests s) \<or> q = r" by auto
    then show "find (\<lambda>x. uniqueKey x = uniqueKey q) (xs @ [r]) = Some q"
    proof
      assume "q \<in> set (requests s)"
      with first have "find (\<lambda>x. uniqueKey x = uniqueKey q) xs = Some q" by blast
      then show ?thesis by (rule find_app_Some)
    next
      assume "q = r"
      with find_app_None[OF none, of "[r]"] show ?thesis by simp
    qed
  next
    fix x assume "x \<in> set (xs @ [r])"
    then have "x \<in> set xs \<or> x = r" by auto
    then show "uniqueKey x \<in> uniqueKey ` set (requests s') \<or> uniqueKey x \<in> set objectPrototypeKeys"
    proof
      assume "x \<in> set xs"
      with cover have "uniqueKey x \<in> uniqueKey ` set (requests s) \<or> uniqueKey x \<in> set objectPrototypeKeys"
        by blast
      then show ?thesis unfolding rs by auto
    next
      assume "x = r"
      then show ?thesis unfolding rs by simp
    qed
  qed
qed

lemma addRequests_first:
  "indexed s \<Longrightarrow>
   \<forall>r\<in>set (requests s). find (\<lambda>x. uniqueKey x = uniqueKey r) xs = Some r \<Longrightarrow>
   \<forall>x\<in>set xs. uniqueKey x \<in> uniqueKey ` set (requests s) \<or> uniqueKey x \<in> set objectPrototypeKeys \<Longrightarrow>
   addRequests rs s = (Inr u, s') \<Longrightarrow>
   (\<forall>q\<in>set (requests s'). find (\<lambda>x. uniqueKey x = uniqueKey q) (xs @ rs) = Some q) \<and>
   (\<forall>x\<in>set (xs @ rs). uniqueKey x \<in> uniqueKey ` set (requests s') \<or> uniqueKey x \<in> set objectPrototypeKeys)"
proof (induction rs arbitrary: s xs)
  case Nil
  then show ?case by simp
next
  case (Cons r rs)
  obtain res1 s1 where a: "addRequest r s = (res1, s1)" by (cases "addRequest r s")
  with Cons.prems(4) obtain u1 where r1: "res1 = Inr u1" and rest: "addRequests rs s1 = (Inr u, s')"
    by (cases res1) auto
  from addRequest_indexed[OF Cons.prems(1) a] have i1: "indexed s1" .
  from addRequest_first[OF Cons.prems(1,2,3) a[unfolded r1]]
  have "(\<forall>q\<in>set (requests s1). find (\<lambda>x. uniqueKey x = uniqueKey q) (xs @ [r]) = Some q)"
    "(\<forall>x\<in>set (xs @ [r]). uniqueKey x \<in> uniqueKey ` set (requests s1) \<or> uniqueKey x \<in> set objectPrototypeKeys)"
    by blast+
  from Cons.IH[OF i1 this rest] show ?case by simp
qed

lemma loadSources_first:
  "indexed s \<Longrightarrow>
   \<forall>r\<in>set (requests s). find (\<lambda>x. uniqueKey x = uniqueKey r) xs = Some r \<Longrightarrow>
   \<forall>x\<in>set xs. uniqueKey x \<in> uniqueKey ` set (requests s) \<or> uniqueKey x \<in> set objectPrototypeKeys \<Longrightarrow>
   loadSources srcs s = (Inr u, s') \<Longrightarrow>
   (\<forall>q\<in>set (requests s'). find (\<lambda>x. uniqueKey x = uniqueKey q) (xs @ sourceItems srcs) = Some q) \<and>
   (\<forall>x\<in>set (xs @ sourceItems srcs). uniqueKey x \<in> uniqueKey ` set (requests s') \<or> uniqueKey x \<in> set objectPrototypeKeys)"
proof (induction srcs arbitrary: s xs)
  case Nil
  then show ?case by simp
next
  case (Cons src rest)
  show ?case
  proof (cases src)
    case (Plain r)
    obtain res1 s1 where a: "addRequest r s = (res1, s1)" by (cases "addRequest r s")
    with Cons.prems(4) Plain obtain u1 where r1: "res1 = Inr u1" and l: "loadSources rest s1 = (Inr u, s')"
      by (cases res1) auto
    from addRequest_indexed[OF Cons.prems(1) a] have i1: "indexed s1" .
    from addRequest_first[OF Cons.prems(1,2,3) a[unfolded r1]]
    have "(\<forall>q\<in>set (requests s1). find (\<lambda>x. uniqueKey x = uniqueKey q) (xs @ [r]) = Some q)"
      "(\<forall>x\<in>set (xs @ [r]). uniqueKey x \<in> uniqueKey ` set (requests s1) \<or> uniqueKey x \<in> set objectPrototypeKeys)"
      by blast+
    from Cons.IH[OF i1 this l] Plain show ?thesis by simp
  next
    case (RequestsFromUrl f)
    obtain res1 s1 where a: "addRequestsFromUrl f s = (res1, s1)" by (cases "addRequestsFromUrl f s")
    with Cons.prems(4) RequestsFromUrl obtain u1 where r1: "res1 = Inr u1"
      and l: "loadSources rest s1 = (Inr u, s')"
      by (cases res1) auto
    from addRequestsFromUrl_Inr[OF a[unfolded r1]] obtain urls s2 lg where
      f: "f = Some urls" and b: "addRequests urls s = (Inr (), s2)" and s1: "s1 = s2\<lparr> logged := lg \<rparr>"
      by blast
    from addRequests_indexed[OF Cons.prems(1) b] have i1: "indexed s1" unfolding s1 by simp
    from addRequests_first[OF Cons.prems(1,2,3) b]
    have "(\<forall>q\<in>set (requests s1). find (\<lambda>x. uniqueKey x = uniqueKey q) (xs @ urls) = Some q)"
      "(\<forall>x\<in>set (xs @ urls). uniqueKey x \<in> uniqueKey ` set (requests s1) \<or> uniqueKey x \<in> set objectPrototypeKeys)"
      unfolding s1 by simp_all
    from Cons.IH[OF i1 this l] RequestsFromUrl f show ?thesis by simp
  qed
qed

lemma addRequest_skip:
  assumes "uniqueKey r \<noteq> []" and "map_of (uniqueKeyToIndex t) (uniqueKey r) = Some i"
  shows "addRequest r t = (Inr (), t)"
  using assms by (simp add: addRequest_def ensureUniqueKeyValid_def indexUndefined_def)

lemma initialize_requests:
  assumes "initialize (newRequestList getValue opts) = (Inr u, s)"
  shows "\<exists>s1. loadSources (opt_sources opts) (newRequestList getValue opts\<lparr> isLoading := True \<rparr>) = (Inr (), s1) \<and>
           requests s = requests s1 \<and> uniqueKeyToIndex s = uniqueKeyToIndex s1 \<and> sources s = opt_sources opts"
proof -
  from initialize_new[OF assms] obtain s1 where
    l: "loadSources (opt_sources opts) (newRequestList getValue opts\<lparr> isLoading := True \<rparr>) = (Inr (), s1)"
    and c: "(case initialState (newRequestList getValue opts) of
              None \<Rightarrow> s = s1\<lparr> isInitialized := True,
                       persistHandler := (case opt_persistStateKey opts of None \<Rightarrow> False | Some key \<Rightarrow> key \<noteq> []) \<rparr>
            | Some st \<Rightarrow> (\<exists>s2. restoreState st s1 = (Inr (), s2) \<and>
                  s = s2\<lparr> isInitialized := True,
                       persistHandler := (case opt_persistStateKey opts of None \<Rightarrow> False | Some key \<Rightarrow> key \<noteq> []) \<rparr>))"
    by blast
  from loadSources_frame[OF l] have src: "sources s1 = opt_sources opts"
    by (simp add: newRequestList_def)
  have "requests s = requests s1 \<and> uniqueKeyToIndex s = uniqueKeyToIndex s1 \<and> sources s = sources s1"
  proof (cases "initialState (newRequestList getValue opts)")
    case None
    with c show ?thesis by simp
  next
    case (Some st)
    with c obtain s2 where r: "restoreState st s1 = (Inr (), s2)"
      and s: "s = s2\<lparr> isInitialized := True,
                       persistHandler := (case opt_persistStateKey opts of None \<Rightarrow> False | Some key \<Rightarrow> key \<noteq> []) \<rparr>"
      by auto
    from restoreState_frame[OF r] show ?thesis unfolding s by simp
  qed
  with l src show ?thesis by auto
qed

lemma dupQueue_initialize:
  "initialize (newRequestList noStore dupOptions) = (Inr (), dupQueue)"
  by (simp add: dupQueue_def initialize_def newRequestList_def dupOptions_def noStore_def addRequest_def
        addRequestsFromUrl_def ensureUniqueKeyValid_def indexUndefined_def objectPrototypeKeys_def
        item_def Let_def)

lemma dupQueue_requests:
  "requests dupQueue = [\<lparr> uniqueKey = ''a'', payload = ''first'' \<rparr>, item ''b'']"
  "uniqueKeyToIndex dupQueue = [(''a'', 0), (''b'', 1)]"
  "logged dupQueue = [ListFetched 2 1 1]"
  by (simp_all add: dupQueue_def initialize_def newRequestList_def dupOptions_def noStore_def addRequest_def
        addRequestsFromUrl_def ensureUniqueKeyValid_def indexUndefined_def objectPrototypeKeys_def
        item_def Let_def)

text \<open>
  Claim C5. After \<open>initialize()\<close> has resolved, no two requests of the \<open>requests\<close> array
  have the same unique key, and each of them is the first of the loaded items, in load
  order, that has its key. Every loaded key is in the array, unless it is the name of a
  property inherited from \<open>Object.prototype\<close> (for which \<open>uniqueKeyToIndex[key]\<close> is never
  \<open>undefined\<close>). \<open>_addRequest\<close> changes nothing, and does not throw, for a request whose
  key has a position in \<open>uniqueKeyToIndex\<close>.
\<close>

theorem first_occurrence_is_kept:
  assumes "initialize (newRequestList getValue opts) = (Inr (), s)"
  shows "distinct (map uniqueKey (requests s)) \<and>
         (\<forall>r\<in>set (requests s).
             find (\<lambda>x. uniqueKey x = uniqueKey r) (sourceItems (opt_sources opts)) = Some r) \<and>
         (\<forall>x\<in>set (sourceItems (opt_sources opts)).
             uniqueKey x \<in> uniqueKey ` set (requests s) \<or> uniqueKey x \<in> set objectPrototypeKeys) \<and>
         (\<forall>r t i. uniqueKey r \<noteq> [] \<and> map_of (uniqueKeyToIndex t) (uniqueKey r) = Some i \<longrightarrow>
             addRequest r t = (Inr (), t))"
proof -
  let ?s0 = "newRequestList getValue opts\<lparr> isLoading := True \<rparr>"
  from initialize_requests[OF assms] obtain s1 where
    l: "loadSources (opt_sources opts) ?s0 = (Inr (), s1)" and rs: "requests s = requests s1"
    by blast
  from indexed_new l have "indexed s1" by (rule loadSources_indexed)
  then have d: "distinct (map uniqueKey (requests s))" unfolding rs by (rule indexed_distinct)
  have e: "requests ?s0 = []" by (simp add: newRequestList_def)
  have p1: "\<forall>r\<in>set (requests ?s0). find (\<lambda>x. uniqueKey x = uniqueKey r) [] = Some r"
    by (simp add: e)
  have p2: "\<forall>x\<in>set []. uniqueKey x \<in> uniqueKey ` set (requests ?s0) \<or> uniqueKey x \<in> set objectPrototypeKeys"
    by simp
  from loadSources_first[OF indexed_new p1 p2 l]
  have "(\<forall>q\<in>set (requests s1). find (\<lambda>x. uniqueKey x = uniqueKey q) (sourceItems (opt_sources opts)) = Some q) \<and>
   (\<forall>x\<in>set (sourceItems (opt_sources opts)). uniqueKey x \<in> uniqueKey ` set (requests s1) \<or> uniqueKey x \<in> set objectPrototypeKeys)"
    by simp
  then have f: "\<forall>r\<in>set (requests s).
             find (\<lambda>x. uniqueKey x = uniqueKey r) (sourceItems (opt_sources opts)) = Some r"
    and c: "\<forall>x\<in>set (sourceItems (opt_sources opts)).
             uniqueKey x \<in> uniqueKey ` set (requests s) \<or> uniqueKey x \<in> set objectPrototypeKeys"
    unfolding rs by blast+
  have k: "\<forall>r t i. uniqueKey r \<noteq> [] \<and> map_of (uniqueKeyToIndex t) (uniqueKey r) = Some i \<longrightarrow>
             addRequest r t = (Inr (), t)"
    using addRequest_skip by blast
  from d f c k show ?thesis by blast
qed

theorem first_occurrence_is_kept_witness:
  "initialize (newRequestList noStore dupOptions) = (Inr (), dupQueue) \<and>
   requests dupQueue = [\<lparr> uniqueKey = ''a'', payload = ''first'' \<rparr>, item ''b''] \<and>
   distinct (map uniqueKey (requests dupQueue)) \<and>
   find (\<lambda>x. uniqueKey x = ''a'') (sourceItems (opt_sources dupOptions))
     = Some \<lparr> uniqueKey = ''a'', payload = ''first'' \<rparr> \<and>
   find (\<lambda>x. uniqueKey x = ''b'') (sourceItems (opt_sources dupOptions)) = Some (item ''b'') \<and>
   map_of (uniqueKeyToIndex dupQueue) ''a'' = Some 0 \<and>
   addRequest \<lparr> uniqueKey = ''a'', payload = ''second'' \<rparr> dupQueue = (Inr (), dupQueue)"
proof -
  note t = first_occurrence_is_kept[OF dupQueue_initialize]
  from t have d: "distinct (map uniqueKey (requests dupQueue))" by blast
  from t have f: "\<forall>r\<in>set (requests dupQueue).
      find (\<lambda>x. uniqueKey x = uniqueKey r) (sourceItems (opt_sources dupOptions)) = Some r"
    by blast
  from f have fa: "find (\<lambda>x. uniqueKey x = ''a'') (sourceItems (opt_sources dupOptions))
     = Some \<lparr> uniqueKey = ''a'', payload = ''first'' \<rparr>"
    by (simp add: dupQueue_requests)
  from f have fb: "find (\<lambda>x. uniqueKey x = ''b'') (sourceItems (opt_sources dupOptions)) = Some (item ''b'')"
    by (simp add: dupQueue_requests item_def)
  have m: "map_of (uniqueKeyToIndex dupQueue) ''a'' = Some 0"
    by (simp add: dupQueue_requests)
  from t have "\<forall>r t i. uniqueKey r \<noteq> [] \<and> map_of (uniqueKeyToIndex t) (uniqueKey r) = Some i \<longrightarrow>
             addRequest r t = (Inr (), t)"
    by blast
  with m have k: "addRequest \<lparr> uniqueKey = ''a'', payload = ''second'' \<rparr> dupQueue = (Inr (), dupQueue)"
    by simp
  from dupQueue_initialize dupQueue_requests(1) d fa fb m k show ?thesis by simp
qed

section \<open>Restoring: the checks of \<open>nextIndex\<close>\<close>

lemma checkNextIndex_rejects:
  assumes "state_nextIndex st = NotNumber \<or>
     (\<exists>x. state_nextIndex st = Number x \<and> x \<noteq> NaN \<and>
        ((\<forall>n. x \<noteq> js_num n) \<or> js_lt (js_num (length rs)) x \<or>
         (\<exists>n<length rs. x = js_num n \<and> state_nextUniqueKey st \<noteq> Some (uniqueKey (rs ! n)))))"
  shows "\<exists>e. checkNextIndex st rs = Inl e"
proof (cases "checkNextIndex st rs")
  case (Inl e)
  then show ?thesis by blast
next
  case (Inr nx)
  from checkNextIndex_Inr[OF Inr] have n: "state_nextIndex st = Number nx"
    and c: "nx = NaN \<or> (\<exists>n\<le>length rs. nx = js_num n \<and>
             (n < length rs \<longrightarrow> state_nextUniqueKey st = Some (uniqueKey (rs ! n))))"
    by blast+
  from assms n have nn: "nx \<noteq> NaN" and
    bad: "(\<forall>n. nx \<noteq> js_num n) \<or> js_lt (js_num (length rs)) nx \<or>
         (\<exists>n<length rs. nx = js_num n \<and> state_nextUniqueKey st \<noteq> Some (uniqueKey (rs ! n)))"
    by auto
  from c nn obtain n where n: "n \<le> length rs" "nx = js_num n"
    "n < length rs \<longrightarrow> state_nextUniqueKey st = Some (uniqueKey (rs ! n))" by blast
  with bad have False by auto
  then show ?thesis ..
qed

lemma initialize_rejects_nextIndex:
  assumes st: "initialState (newRequestList getValue opts) = Some st"
    and l: "loadSources (opt_sources opts) (newRequestList getValue opts\<lparr> isLoading := True \<rparr>) = (Inr (), s1)"
    and bad: "state_nextIndex st = NotNumber \<or>
     (\<exists>x. state_nextIndex st = Number x \<and> x \<noteq> NaN \<and>
        ((\<forall>n. x \<noteq> js_num n) \<or> js_lt (js_num (length (requests s1))) x \<or>
         (\<exists>n<length (requests s1). x = js_num n \<and>
            state_nextUniqueKey st \<noteq> Some (uniqueKey (requests s1 ! n)))))"
  shows "\<exists>e. initialize (newRequestList getValue opts) = (Inl e, s1) \<and> \<not> isInitialized s1"
proof -
  from checkNextIndex_rejects[OF bad] obtain e where "checkNextIndex st (requests s1) = Inl e" by blast
  then have r: "restoreState st s1 = (Inl e, s1)" by (simp add: restoreState_def)
  from loadSources_frame[OF l] have f: "initialState s1 = Some st" "\<not> isInitialized s1"
    using st by (simp_all add: newRequestList_def)
  have nl: "\<not> isLoading (newRequestList getValue opts)" "sources (newRequestList getValue opts) = opt_sources opts"
    by (simp_all add: newRequestList_def)
  from nl l f r have "initialize (newRequestList getValue opts) = (Inl e, s1)"
    by (simp add: initialize_def)
  with f show ?thesis by blast
qed

text \<open>
  Claim C7 says that restoring fails whenever \<open>state.nextIndex\<close> is not a non-negative
  integer. The two lemmas above give this for every value but one. For \<open>NaN\<close> each of
  the three comparisons in \<open>initialize\<close> is false and \<open>typeof NaN\<close> is \<open>'number'\<close>, so
  nothing is thrown: with the sources \<open>a\<close>, \<open>b\<close>, \<open>c\<close> and the state object
  \<open>{ nextIndex: NaN, nextUniqueKey: null, inProgress: {} }\<close>, \<open>initialize()\<close> resolves, the
  list is initialized and its \<open>nextIndex\<close> is \<open>NaN\<close>. In that state \<open>fetchNextRequest()\<close>
  returns \<open>null\<close> although \<open>isEmpty()\<close> is \<open>false\<close>.
\<close>

theorem nan_nextIndex_is_restored:
  "initialize (newRequestList noStore nanOptions)
     = (Inr (), abcQueue\<lparr> initialState := opt_state nanOptions, nextIndex := NaN \<rparr>) \<and>
   isInitialized (abcQueue\<lparr> initialState := opt_state nanOptions, nextIndex := NaN \<rparr>) \<and>
   fetchNextRequest firstOwnKey (abcQueue\<lparr> initialState := opt_state nanOptions, nextIndex := NaN \<rparr>)
     = (Inr Null, abcQueue\<lparr> initialState := opt_state nanOptions, nextIndex := NaN \<rparr>) \<and>
   isEmpty firstOwnKey (abcQueue\<lparr> initialState := opt_state nanOptions, nextIndex := NaN \<rparr>)
     = (Inr False, abcQueue\<lparr> initialState := opt_state nanOptions, nextIndex := NaN \<rparr>)"
  by (simp add: abcQueue_eq nanOptions_def initialize_def newRequestList_def abcOptions_def noStore_def
        addRequest_def ensureUniqueKeyValid_def indexUndefined_def objectPrototypeKeys_def item_def
        restoreState_def checkNextIndex_def fetchNextRequest_def isEmpty_def ensureIsInitialized_def
        firstOwnKey_def keyTruthy_def)

section \<open>Restoring the state object of another list\<close>

lemma fetchNextRequest_static:
  assumes "fetchNextRequest g s = (res, s')"
  shows "requests s' = requests s \<and> uniqueKeyToIndex s' = uniqueKeyToIndex s \<and> sources s' = sources s"
proof (cases "isInitialized s")
  case False
  with assms show ?thesis by (simp add: fetchNextRequest_def ensureIsInitialized_def)
next
  case init: True
  show ?thesis
  proof (cases "keyTruthy (g (reclaimed s))")
    case True
    with assms init have "s' = s\<lparr> reclaimed := dictDelete (the (g (reclaimed s))) (reclaimed s) \<rparr>"
      by (auto simp: fetchNextRequest_def ensureIsInitialized_def Let_def split: option.splits)
    then show ?thesis by simp
  next
    case False
    with assms init have "s' = s \<or> (\<exists>k. s' = s\<lparr> inProgress := dictSet k (inProgress s),
                     nextIndex := js_incr (nextIndex s), isStatePersisted := False \<rparr>)"
      by (auto simp: fetchNextRequest_def ensureIsInitialized_def split: option.splits if_splits)
    then show ?thesis by auto
  qed
qed

lemma markRequestHandled_static:
  assumes "markRequestHandled r s = (res, s')"
  shows "requests s' = requests s \<and> uniqueKeyToIndex s' = uniqueKeyToIndex s \<and> sources s' = sources s"
  using assms by (auto simp: markRequestHandled_def split: sum.splits)

lemma reclaimRequest_static:
  assumes "reclaimRequest r s = (res, s')"
  shows "requests s' = requests s \<and> uniqueKeyToIndex s' = uniqueKeyToIndex s \<and> sources s' = sources s"
  using assms by (auto simp: reclaimRequest_def split: sum.splits)

lemma onPersistState_static:
  assumes "onPersistState stored s = (w, s')"
  shows "requests s' = requests s \<and> uniqueKeyToIndex s' = uniqueKeyToIndex s \<and> sources s' = sources s"
proof -
  obtain res s1 where g: "getState s = (res, s1)" by (cases "getState s")
  from getState_state[OF g] have "s1 = s" .
  with assms g show ?thesis
    by (cases res) (auto simp: onPersistState_def split: if_splits)
qed

text \<open>Loading depends on the array and the position dictionary only.\<close>

lemma addRequest_depends:
  assumes "requests a = requests b" and "uniqueKeyToIndex a = uniqueKeyToIndex b"
    and "addRequest r a = (res, a')"
  shows "\<exists>b'. addRequest r b = (res, b') \<and> requests a' = requests b' \<and>
           uniqueKeyToIndex a' = uniqueKeyToIndex b'"
  using assms by (auto simp: addRequest_def split: sum.splits if_splits)

lemma addRequests_depends:
  "requests a = requests b \<Longrightarrow> uniqueKeyToIndex a = uniqueKeyToIndex b \<Longrightarrow>
   addRequests rs a = (res, a') \<Longrightarrow>
   \<exists>b'. addRequests rs b = (res, b') \<and> requests a' = requests b' \<and>
        uniqueKeyToIndex a' = uniqueKeyToIndex b'"
proof (induction rs arbitrary: a b)
  case Nil
  then show ?case by simp
next
  case (Cons r rs)
  obtain r1 a1 where a: "addRequest r a = (r1, a1)" by (cases "addRequest r a")
  from addRequest_depends[OF Cons.prems(1,2) a] obtain b1 where
    b: "addRequest r b = (r1, b1)" and e: "requests a1 = requests b1" "uniqueKeyToIndex a1 = uniqueKeyToIndex b1"
    by blast
  show ?case
  proof (cases r1)
    case (Inl err)
    with Cons.prems(3) a b e show ?thesis by auto
  next
    case (Inr u)
    with Cons.prems(3) a have "addRequests rs a1 = (res, a')" by simp
    from Cons.IH[OF e this] b Inr show ?thesis by auto
  qed
qed

lemma addRequestsFromUrl_depends:
  assumes e: "requests a = requests b" "uniqueKeyToIndex a = uniqueKeyToIndex b"
    and a: "addRequestsFromUrl f a = (res, a')"
  shows "\<exists>b'. addRequestsFromUrl f b = (res, b') \<and> requests a' = requests b' \<and>
           uniqueKeyToIndex a' = uniqueKeyToIndex b'"
proof (cases f)
  case None
  with a e show ?thesis by (auto simp: addRequestsFromUrl_def)
next
  case (Some urls)
  show ?thesis
  proof (cases urls)
    case Nil
    with Some a e show ?thesis by (auto simp: addRequestsFromUrl_def)
  next
    case (Cons x ys)
    obtain r1 a1 where a1: "addRequests urls a = (r1, a1)" by (cases "addRequests urls a")
    from addRequests_depends[OF e a1] obtain b1 where
      b1: "addRequests urls b = (r1, b1)" and e1: "requests a1 = requests b1"
      "uniqueKeyToIndex a1 = uniqueKeyToIndex b1" by blast
    show ?thesis
    proof (cases r1)
      case (Inl err)
      with a Some Cons a1 b1 e1 show ?thesis by (auto simp: addRequestsFromUrl_def)
    next
      case (Inr u)
      with a Some Cons a1 b1 e1 show ?thesis by (auto simp: addRequestsFromUrl_def Let_def)
    qed
  qed
qed

lemma loadSources_depends:
  "requests a = requests b \<Longrightarrow> uniqueKeyToIndex a = uniqueKeyToIndex b \<Longrightarrow>
   loadSources srcs a = (res, a') \<Longrightarrow>
   \<exists>b'. loadSources srcs b = (res, b') \<and> requests a' = requests b' \<and>
        uniqueKeyToIndex a' = uniqueKeyToIndex b'"
proof (induction srcs arbitrary: a b)
  case Nil
  then show ?case by simp
next
  case (Cons src rest)
  obtain r1 a1 where a: "(case src of Plain r \<Rightarrow> addRequest r a
                      | RequestsFromUrl f \<Rightarrow> addRequestsFromUrl f a) = (r1, a1)"
    by (cases "(case src of Plain r \<Rightarrow> addRequest r a | RequestsFromUrl f \<Rightarrow> addRequestsFromUrl f a)")
  have "\<exists>b1. (case src of Plain r \<Rightarrow> addRequest r b
                      | RequestsFromUrl f \<Rightarrow> addRequestsFromUrl f b) = (r1, b1) \<and>
          requests a1 = requests b1 \<and> uniqueKeyToIndex a1 = uniqueKeyToIndex b1"
  proof (cases src)
    case (Plain r)
    with a have "addRequest r a = (r1, a1)" by simp
    from addRequest_depends[OF Cons.prems(1,2) this] Plain show ?thesis by auto
  next
    case (RequestsFromUrl f)
    with a have "addRequestsFromUrl f a = (r1, a1)" by simp
    from addRequestsFromUrl_depends[OF Cons.prems(1,2) this] RequestsFromUrl show ?thesis by auto
  qed
  then obtain b1 where b: "(case src of Plain r \<Rightarrow> addRequest r b
                      | RequestsFromUrl f \<Rightarrow> addRequestsFromUrl f b) = (r1, b1)"
    and e: "requests a1 = requests b1" "uniqueKeyToIndex a1 = uniqueKeyToIndex b1" by blast
  show ?case
  proof (cases r1)
    case (Inl err)
    with Cons.prems(3) a b e show ?thesis by auto
  next
    case (Inr u)
    with Cons.prems(3) a have "loadSources rest a1 = (res, a')" by simp
    from Cons.IH[OF e this] b Inr show ?thesis by auto
  qed
qed

text \<open>In a reachable state the array and the position dictionary are what loading the
  sources of the list yields.\<close>

lemma reachable_loaded:
  "reachable g s \<Longrightarrow>
   \<exists>getValue opts s1. loadSources (sources s) (newRequestList getValue opts\<lparr> isLoading := True \<rparr>) = (Inr (), s1) \<and>
      requests s = requests s1 \<and> uniqueKeyToIndex s = uniqueKeyToIndex s1"
proof (induction rule: reachable.induct)
  case (reach_initialize getValue opts s)
  from initialize_requests[OF this] show ?case by metis
next
  case (reach_fetchNextRequest s res s')
  from fetchNextRequest_static[OF reach_fetchNextRequest(2)] reach_fetchNextRequest(3)
  show ?case by simp
next
  case (reach_markRequestHandled s r ok s')
  from markRequestHandled_static[OF reach_markRequestHandled(2)] reach_markRequestHandled(3)
  show ?case by simp
next
  case (reach_reclaimRequest s r ok s')
  from reclaimRequest_static[OF reach_reclaimRequest(2)] reach_reclaimRequest(3)
  show ?case by simp
next
  case (reach_onPersistState s stored written s')
  from onPersistState_static[OF reach_onPersistState(2)] reach_onPersistState(3)
  show ?case by simp
qed


lemma record_reclaimed_same: "s\<lparr> reclaimed := reclaimed s \<rparr> = s"
  by simp

text \<open>Draining \<open>reclaimed\<close>: as many calls as it has keys return the requests of exactly
  those keys, each once, and leave everything else as it was.\<close>

lemma fetchMany_drain:
  assumes g: "getFirstKeyContract g"
  shows "consistent s \<Longrightarrow> isInitialized s \<Longrightarrow> card (set (reclaimed s)) = n \<Longrightarrow>
         \<exists>rs. fetchMany g n s = (map (\<lambda>r. Inr (Request r)) rs, s\<lparr> reclaimed := [] \<rparr>) \<and>
              distinct (map uniqueKey rs) \<and> uniqueKey ` set rs = set (reclaimed s) \<and>
              set rs \<subseteq> set (requests s)"
proof (induction n arbitrary: s)
  case 0
  then have "reclaimed s = []" by simp
  then have "s\<lparr> reclaimed := [] \<rparr> = s" by (metis record_reclaimed_same)
  with \<open>reclaimed s = []\<close> show ?case by (intro exI[of _ "[]"]) simp
next
  case (Suc n)
  then have ne: "reclaimed s \<noteq> []" by auto
  from fetchNextRequest_reclaimed[OF g Suc.prems(1,2) ne] obtain k i where
    k: "k \<in> set (reclaimed s)" "i < length (requests s)" "uniqueKey (requests s ! i) = k"
    and f: "fetchNextRequest g s = (Inr (Request (requests s ! i)), s\<lparr> reclaimed := dictDelete k (reclaimed s) \<rparr>)"
    by blast
  let ?s1 = "s\<lparr> reclaimed := dictDelete k (reclaimed s) \<rparr>"
  from fetchNextRequest_consistent[OF Suc.prems(1) f] Suc.prems(2)
  have c1: "consistent ?s1" and i1: "isInitialized ?s1" by simp_all
  from k(1) Suc.prems(3) have n1: "card (set (reclaimed ?s1)) = n" by simp
  from Suc.IH[OF c1 i1 n1] obtain rs where
    rs: "fetchMany g n ?s1 = (map (\<lambda>r. Inr (Request r)) rs, ?s1\<lparr> reclaimed := [] \<rparr>)"
    "distinct (map uniqueKey rs)" "uniqueKey ` set rs = set (reclaimed ?s1)"
    "set rs \<subseteq> set (requests ?s1)" by blast
  have fin: "?s1\<lparr> reclaimed := [] \<rparr> = s\<lparr> reclaimed := [] \<rparr>" by simp
  from rs(3) have notin: "k \<notin> uniqueKey ` set rs" by simp
  from rs(3) k(1) have keys: "insert k (uniqueKey ` set rs) = set (reclaimed s)" by auto
  show ?case
  proof (intro exI[of _ "requests s ! i # rs"] conjI)
    show "fetchMany g (Suc n) s
        = (map (\<lambda>r. Inr (Request r)) (requests s ! i # rs), s\<lparr> reclaimed := [] \<rparr>)"
      using f rs(1) fin by simp
    show "distinct (map uniqueKey (requests s ! i # rs))"
      using rs(2) notin k(3) by simp
    show "uniqueKey ` set (requests s ! i # rs) = set (reclaimed s)"
      using keys k(3) by simp
    show "set (requests s ! i # rs) \<subseteq> set (requests s)"
      using rs(4) k(2) by simp
  qed
qed




lemma checkNextIndex_ok:
  assumes "state_nextIndex st = Number (js_num n)" and "n \<le> length rs"
    and "n < length rs \<longrightarrow> state_nextUniqueKey st = Some (uniqueKey (rs ! n))"
  shows "checkNextIndex st rs = Inr (js_num n)"
  using assms by (simp add: checkNextIndex_def js_num_def js_index_def)

lemma restoreState_ok:
  assumes "checkNextIndex st (requests s) = Inr nx"
    and "\<forall>k\<in>set (state_inProgress st). map_of (uniqueKeyToIndex s) k \<noteq> None"
  shows "restoreState st s =
     (Inr (), s\<lparr> nextIndex := nx,
        inProgress := filter (\<lambda>k. \<not> js_ge (js_num (the (map_of (uniqueKeyToIndex s) k))) nx) (state_inProgress st),
        reclaimed := filter (\<lambda>k. \<not> js_ge (js_num (the (map_of (uniqueKeyToIndex s) k))) nx) (state_inProgress st),
        logged := logged s @
          (if filter (\<lambda>k. js_ge (js_num (the (map_of (uniqueKeyToIndex s) k))) nx) (state_inProgress st) \<noteq> []
           then [InconsistentInProgress (filter (\<lambda>k. js_ge (js_num (the (map_of (uniqueKeyToIndex s) k))) nx) (state_inProgress st))]
           else []) \<rparr>)"
proof -
  have "filter (\<lambda>k. k \<notin> set (filter (\<lambda>k. js_ge (js_num (the (map_of (uniqueKeyToIndex s) k))) nx) (state_inProgress st)))
          (state_inProgress st)
        = filter (\<lambda>k. \<not> js_ge (js_num (the (map_of (uniqueKeyToIndex s) k))) nx) (state_inProgress st)"
    by (rule filter_cong) auto
  with assms show ?thesis
    by (simp add: restoreState_def collectInvalid_eq fold_dictDelete Let_def)
qed

lemma initialize_restore:
  assumes st: "opt_state opts = Some st"
    and l: "loadSources (opt_sources opts) (newRequestList getValue opts\<lparr> isLoading := True \<rparr>) = (Inr (), s1)"
    and r: "restoreState st s1 = (res, s2)"
  shows "initialize (newRequestList getValue opts) =
     (case res of Inl e \<Rightarrow> (Inl e, s2)
      | Inr u \<Rightarrow> (Inr (), s2\<lparr> isInitialized := True,
            persistHandler := (case opt_persistStateKey opts of None \<Rightarrow> False | Some key \<Rightarrow> key \<noteq> []) \<rparr>))"
proof -
  have nl: "\<not> isLoading (newRequestList getValue opts)"
    "sources (newRequestList getValue opts) = opt_sources opts"
    "initialState (newRequestList getValue opts) = Some st"
    using st by (simp_all add: newRequestList_def split: option.splits)
  from loadSources_frame[OF l] nl have f: "initialState s1 = Some st" by simp
  from loadSources_frame[OF l] restoreState_frame[OF r]
  have p: "persistStateKey s2 = opt_persistStateKey opts" by (simp add: newRequestList_def)
  from nl l f r p show ?thesis by (cases res) (simp_all add: initialize_def)
qed

lemma abFetched_eq:
  "abFetched = abcQueue\<lparr> inProgress := [''a'', ''b''], nextIndex := Fin 2, isStatePersisted := False \<rparr>"
  by (simp add: abFetched_def abcQueue_eq numeral_2_eq_2 fetchNextRequest_def ensureIsInitialized_def
        firstOwnKey_def keyTruthy_def js_num_def js_index_def dictSet_def item_def)

lemma abFetched_reachable: "reachable firstOwnKey abFetched"
  unfolding abFetched_def by (rule reachable_fetchMany[OF abcQueue_reachable])

lemma abRestored_eq:
  "abRestored = abcQueue\<lparr> initialState := Some abSnapshot, inProgress := [''a'', ''b''],
      reclaimed := [''a'', ''b''], nextIndex := Fin 2 \<rparr>"
  by (simp add: abRestored_def abSnapshot_def abcQueue_eq initialize_def newRequestList_def abcOptions_def
        noStore_def addRequest_def ensureUniqueKeyValid_def indexUndefined_def objectPrototypeKeys_def
        item_def restoreState_def checkNextIndex_def js_num_def js_index_def js_ge_def dictDelete_def
        Let_def)

text \<open>
  Claim C3. Let a reachable list have \<open>nextIndex = k\<close> and let every key of its
  \<open>inProgress\<close> have a position below \<open>k\<close>. Then \<open>getState()\<close> returns a state object, and
  a new list built from the same sources with that state object initializes successfully
  with the same \<open>requests\<close>, \<open>nextIndex = k\<close>, and \<open>inProgress\<close> and \<open>reclaimed\<close> both equal
  to the \<open>inProgress\<close> of the first list. As many calls of \<open>fetchNextRequest()\<close> as that
  set has keys return the requests of exactly those keys, each once and each from a
  position below \<open>k\<close>; the call after them returns \<open>requests[k]\<close> from the cursor, or
  \<open>null\<close> when \<open>k\<close> is the length of the array.
\<close>

theorem snapshot_round_trip:
  assumes g: "getFirstKeyContract g" and r: "reachable g s"
    and k: "nextIndex s = js_num k"
    and pos: "\<forall>key\<in>set (inProgress s). \<exists>i<k. map_of (uniqueKeyToIndex s) key = Some i"
    and src: "opt_sources opts = sources s"
  shows "(\<exists>st. getState s = (Inr st, s)) \<and>
         (\<forall>st. getState s = (Inr st, s) \<and> opt_state opts = Some st \<longrightarrow>
            (\<exists>t. initialize (newRequestList getValue opts) = (Inr (), t) \<and>
               requests t = requests s \<and> nextIndex t = js_num k \<and>
               inProgress t = inProgress s \<and> reclaimed t = inProgress s \<and>
               (\<exists>rs. fetchMany g (card (set (inProgress s))) t
                        = (map (\<lambda>r. Inr (Request r)) rs, t\<lparr> reclaimed := [] \<rparr>) \<and>
                  distinct (map uniqueKey rs) \<and> uniqueKey ` set rs = set (inProgress s) \<and>
                  set rs \<subseteq> set (requests s) \<and>
                  (\<forall>q\<in>set rs. \<exists>i<k. requests s ! i = q)) \<and>
               fetchNextRequest g (t\<lparr> reclaimed := [] \<rparr>) =
                 (if k < length (requests s)
                  then (Inr (Request (requests s ! k)),
                        t\<lparr> reclaimed := [],
                           inProgress := dictSet (uniqueKey (requests s ! k)) (inProgress s),
                           nextIndex := js_num (Suc k), isStatePersisted := False \<rparr>)
                  else (Inr Null, t\<lparr> reclaimed := [] \<rparr>))))"
proof -
  from reachable_consistent[OF r] have c: "consistent s" and i: "isInitialized s" by blast+
  from c k have kl: "k \<le> length (requests s)" by (auto simp: consistent_def)
  let ?st = "\<lparr> state_nextIndex = Number (js_num k),
              state_nextUniqueKey = (if k < length (requests s) then Some (uniqueKey (requests s ! k)) else None),
              state_inProgress = inProgress s \<rparr>"
  from getState_consistent[OF c i] k have gs: "getState s = (Inr ?st, s)" by simp
  have main: "\<exists>t. initialize (newRequestList getValue opts) = (Inr (), t) \<and>
               requests t = requests s \<and> nextIndex t = js_num k \<and>
               inProgress t = inProgress s \<and> reclaimed t = inProgress s \<and>
               (\<exists>rs. fetchMany g (card (set (inProgress s))) t
                        = (map (\<lambda>r. Inr (Request r)) rs, t\<lparr> reclaimed := [] \<rparr>) \<and>
                  distinct (map uniqueKey rs) \<and> uniqueKey ` set rs = set (inProgress s) \<and>
                  set rs \<subseteq> set (requests s) \<and>
                  (\<forall>q\<in>set rs. \<exists>i<k. requests s ! i = q)) \<and>
               fetchNextRequest g (t\<lparr> reclaimed := [] \<rparr>) =
                 (if k < length (requests s)
                  then (Inr (Request (requests s ! k)),
                        t\<lparr> reclaimed := [],
                           inProgress := dictSet (uniqueKey (requests s ! k)) (inProgress s),
                           nextIndex := js_num (Suc k), isStatePersisted := False \<rparr>)
                  else (Inr Null, t\<lparr> reclaimed := [] \<rparr>))"
    if os: "opt_state opts = Some ?st"
  proof -
    from reachable_loaded[OF r] obtain gv0 opts0 s0 where
      l0: "loadSources (sources s) (newRequestList gv0 opts0\<lparr> isLoading := True \<rparr>) = (Inr (), s0)"
      and e0: "requests s = requests s0" "uniqueKeyToIndex s = uniqueKeyToIndex s0" by blast
    have "requests (newRequestList gv0 opts0\<lparr> isLoading := True \<rparr>)
            = requests (newRequestList getValue opts\<lparr> isLoading := True \<rparr>)"
      "uniqueKeyToIndex (newRequestList gv0 opts0\<lparr> isLoading := True \<rparr>)
            = uniqueKeyToIndex (newRequestList getValue opts\<lparr> isLoading := True \<rparr>)"
      by (simp_all add: newRequestList_def)
    from loadSources_depends[OF this l0] src obtain s1 where
      l1: "loadSources (opt_sources opts) (newRequestList getValue opts\<lparr> isLoading := True \<rparr>) = (Inr (), s1)"
      and e1: "requests s0 = requests s1" "uniqueKeyToIndex s0 = uniqueKeyToIndex s1" by auto
    from e0 e1 have e: "requests s1 = requests s" "uniqueKeyToIndex s1 = uniqueKeyToIndex s" by simp_all
    have "checkNextIndex ?st (requests s1) = Inr (js_num k)"
      unfolding e using kl by (intro checkNextIndex_ok) simp_all
    moreover from pos have known: "\<forall>key\<in>set (state_inProgress ?st). map_of (uniqueKeyToIndex s1) key \<noteq> None"
      unfolding e by auto
    ultimately have rs1: "restoreState ?st s1 =
     (Inr (), s1\<lparr> nextIndex := js_num k,
        inProgress := filter (\<lambda>key. \<not> js_ge (js_num (the (map_of (uniqueKeyToIndex s1) key))) (js_num k)) (state_inProgress ?st),
        reclaimed := filter (\<lambda>key. \<not> js_ge (js_num (the (map_of (uniqueKeyToIndex s1) key))) (js_num k)) (state_inProgress ?st),
        logged := logged s1 @
          (if filter (\<lambda>key. js_ge (js_num (the (map_of (uniqueKeyToIndex s1) key))) (js_num k)) (state_inProgress ?st) \<noteq> []
           then [InconsistentInProgress (filter (\<lambda>key. js_ge (js_num (the (map_of (uniqueKeyToIndex s1) key))) (js_num k)) (state_inProgress ?st))]
           else []) \<rparr>)"
      by (rule restoreState_ok)
    from pos have keep: "filter (\<lambda>key. \<not> js_ge (js_num (the (map_of (uniqueKeyToIndex s1) key))) (js_num k)) (state_inProgress ?st)
        = inProgress s"
      unfolding e by (auto simp: filter_id_conv)
    from pos have drop: "filter (\<lambda>key. js_ge (js_num (the (map_of (uniqueKeyToIndex s1) key))) (js_num k)) (state_inProgress ?st) = []"
      unfolding e by (auto simp: filter_empty_conv)
    let ?t = "s1\<lparr> nextIndex := js_num k, inProgress := inProgress s, reclaimed := inProgress s,
                 logged := logged s1, isInitialized := True,
                 persistHandler := (case opt_persistStateKey opts of None \<Rightarrow> False | Some key \<Rightarrow> key \<noteq> []) \<rparr>"
    from rs1 keep drop have rs2: "restoreState ?st s1 =
       (Inr (), s1\<lparr> nextIndex := js_num k, inProgress := inProgress s, reclaimed := inProgress s,
                 logged := logged s1 \<rparr>)"
      by simp
    from initialize_restore[OF os l1 rs2]
    have init: "initialize (newRequestList getValue opts) = (Inr (), ?t)" by simp
    from initialize_consistent[OF init] have ct: "consistent ?t" and it: "isInitialized ?t" by blast+
    have rt: "reclaimed ?t = inProgress s" by simp
    from fetchMany_drain[OF g ct it, of "card (set (inProgress s))"] rt e obtain rs where
      rs: "fetchMany g (card (set (inProgress s))) ?t = (map (\<lambda>r. Inr (Request r)) rs, ?t\<lparr> reclaimed := [] \<rparr>)"
      "distinct (map uniqueKey rs)" "uniqueKey ` set rs = set (inProgress s)"
      "set rs \<subseteq> set (requests s)" by auto
    have before: "\<forall>q\<in>set rs. \<exists>i<k. requests s ! i = q"
    proof
      fix q assume q: "q \<in> set rs"
      with rs(3) have "uniqueKey q \<in> set (inProgress s)" by blast
      with pos obtain i where i: "i < k" "map_of (uniqueKeyToIndex s) (uniqueKey q) = Some i" by blast
      from q rs(4) have "q \<in> set (requests s)" by blast
      then obtain j where j: "j < length (requests s)" "requests s ! j = q"
        by (auto simp: in_set_conv_nth)
      with c have "map_of (uniqueKeyToIndex s) (uniqueKey q) = Some j"
        by (auto simp: consistent_def indexed_def)
      with i j show "\<exists>i<k. requests s ! i = q" by auto
    qed
    from ct have ct': "consistent (?t\<lparr> reclaimed := [] \<rparr>)" by (simp add: consistent_def indexed_def)
    have next_fetch: "fetchNextRequest g (?t\<lparr> reclaimed := [] \<rparr>) =
                 (if k < length (requests s)
                  then (Inr (Request (requests s ! k)),
                        ?t\<lparr> reclaimed := [],
                           inProgress := dictSet (uniqueKey (requests s ! k)) (inProgress s),
                           nextIndex := js_num (Suc k), isStatePersisted := False \<rparr>)
                  else (Inr Null, ?t\<lparr> reclaimed := [] \<rparr>))"
    proof (cases "k < length (requests s)")
      case True
      from fetchNextRequest_cursor[OF g ct', of k] True e show ?thesis by simp
    next
      case False
      from fetchNextRequest_none[OF g, of "?t\<lparr> reclaimed := [] \<rparr>"] False e show ?thesis by simp
    qed
    from init rs before next_fetch e show ?thesis
      by (intro exI[of _ ?t] conjI exI[of _ rs]) simp_all
  qed
  from gs main show ?thesis by auto
qed

theorem snapshot_round_trip_witness:
  "getFirstKeyContract firstOwnKey \<and> reachable firstOwnKey abFetched \<and>
   nextIndex abFetched = js_num 2 \<and> inProgress abFetched = [''a'', ''b''] \<and>
   getState abFetched = (Inr abSnapshot, abFetched) \<and>
   opt_sources (abcOptions\<lparr> opt_state := Some abSnapshot \<rparr>) = sources abFetched \<and>
   initialize (newRequestList noStore (abcOptions\<lparr> opt_state := Some abSnapshot \<rparr>)) = (Inr (), abRestored) \<and>
   requests abRestored = requests abFetched \<and> nextIndex abRestored = js_num 2 \<and>
   inProgress abRestored = [''a'', ''b''] \<and> reclaimed abRestored = [''a'', ''b''] \<and>
   fetchMany firstOwnKey 2 abRestored
     = ([Inr (Request (item ''a'')), Inr (Request (item ''b''))], abRestored\<lparr> reclaimed := [] \<rparr>) \<and>
   fetchNextRequest firstOwnKey (abRestored\<lparr> reclaimed := [] \<rparr>)
     = (Inr (Request (item ''c'')),
        abRestored\<lparr> reclaimed := [], inProgress := [''a'', ''b'', ''c''], nextIndex := js_num 3,
          isStatePersisted := False \<rparr>)"
proof -
  have k: "nextIndex abFetched = js_num 2" and ip: "inProgress abFetched = [''a'', ''b'']"
    by (simp_all add: abFetched_eq js_num_def)
  have pos: "\<forall>key\<in>set (inProgress abFetched). \<exists>i<2. map_of (uniqueKeyToIndex abFetched) key = Some i"
    by (simp add: abFetched_eq abcQueue_eq)
  have src: "opt_sources (abcOptions\<lparr> opt_state := Some abSnapshot \<rparr>) = sources abFetched"
    by (simp add: abFetched_eq abcQueue_eq abcOptions_def)
  have gs: "getState abFetched = (Inr abSnapshot, abFetched)"
    by (simp add: abFetched_eq abcQueue_eq abSnapshot_def getState_def ensureIsInitialized_def
          js_num_def js_index_def item_def)
  have os: "opt_state (abcOptions\<lparr> opt_state := Some abSnapshot \<rparr>) = Some abSnapshot" by simp
  from snapshot_round_trip[OF firstOwnKey_contract abFetched_reachable k pos src, of noStore] gs os
  obtain t where t: "initialize (newRequestList noStore (abcOptions\<lparr> opt_state := Some abSnapshot \<rparr>)) = (Inr (), t)"
    "requests t = requests abFetched" "nextIndex t = js_num 2"
    "inProgress t = inProgress abFetched" "reclaimed t = inProgress abFetched"
    by blast
  from t(1) have "t = abRestored" by (simp add: abRestored_def)
  with t ip have r: "initialize (newRequestList noStore (abcOptions\<lparr> opt_state := Some abSnapshot \<rparr>)) = (Inr (), abRestored)"
    "requests abRestored = requests abFetched" "nextIndex abRestored = js_num 2"
    "inProgress abRestored = [''a'', ''b'']" "reclaimed abRestored = [''a'', ''b'']"
    by simp_all
  have fm: "fetchMany firstOwnKey 2 abRestored
     = ([Inr (Request (item ''a'')), Inr (Request (item ''b''))], abRestored\<lparr> reclaimed := [] \<rparr>)"
    by (simp add: abRestored_eq abcQueue_eq numeral_2_eq_2 fetchNextRequest_def ensureIsInitialized_def
        firstOwnKey_def keyTruthy_def js_num_def js_index_def dictDelete_def item_def Let_def)
  have fn: "fetchNextRequest firstOwnKey (abRestored\<lparr> reclaimed := [] \<rparr>)
     = (Inr (Request (item ''c'')),
        abRestored\<lparr> reclaimed := [], inProgress := [''a'', ''b'', ''c''], nextIndex := js_num 3,
          isStatePersisted := False \<rparr>)"
    by (simp add: abRestored_eq abcQueue_eq fetchNextRequest_def ensureIsInitialized_def
        firstOwnKey_def keyTruthy_def js_num_def js_index_def dictSet_def item_def)
  from firstOwnKey_contract abFetched_reachable k ip gs src r fm fn show ?thesis by simp
qed

section \<open>Restoring: the keys of \<open>inProgress\<close>\<close>








end
